theory Spec2Isabelle
  imports Complex_Main "HOL-Library.AList"
begin

section \<open>JavaScript values\<close>

text \<open>
  A JavaScript string is a sequence of UTF-16 code units; \<open>length\<close>, \<open>slice\<close> and
  \<open>indexOf\<close> count code units. A code unit is modelled as a natural number (below
  65536 in every string the program can hold), and \<open>str\<close> turns an ASCII literal into
  its code units.
\<close>

type_synonym jsstring = "nat list"

definition str :: "string \<Rightarrow> jsstring" where
  "str s = map of_char s"

text \<open>
  A number is a double. Every finite double is a rational number, and what
  \<open>JSON.parse\<close> yields is a finite double or, for a literal such as \<open>1e999\<close>, an
  infinity; NaN is not among its results, and none of the operations below makes one
  out of them. Negative zero is not told from zero: neither the comparisons of the
  program, nor its truth tests, nor \<open>Math.min\<close> and \<open>Math.max\<close> against the bounds it
  uses, nor \<open>slice\<close> tell them apart. Comparison, \<open>Math.min\<close>, \<open>Math.max\<close> and the
  truncation inside \<open>slice\<close> are exact on doubles, and so is the sum of an index and a
  length, both integers far below \<open>2^53\<close>. Where the program adds a length to a number it
  was given, or prints a number, the result is the host's to say: see \<open>host\<close> below.
\<close>

datatype jsnum = Finite rat | PosInfinity | NegInfinity

text \<open>
  The values the program handles come out of \<open>JSON.parse\<close>: null, booleans, numbers,
  strings, arrays and objects; reading a property that an object lacks gives
  \<open>undefined\<close>. An object is an association list of its own properties, read with
  \<open>map_of\<close>.
\<close>

datatype jsval =
    JUndefined
  | JNull
  | JBool bool
  | JNum jsnum
  | JStr jsstring
  | JArr "jsval list"
  | JObj "(jsstring \<times> jsval) list"

type_synonym jsobject = "(jsstring \<times> jsval) list"

datatype error = TypeError | SyntaxError | Error

text \<open>
  What a call does: it returns a value, throws, or never returns.
\<close>

datatype 'a outcome = Returns 'a | Throws error | Diverges

text \<open>
  Three operations are the host's and are taken as parameters, so that what is proved
  holds whatever they are: \<open>toLower\<close> is \<open>String.prototype.toLowerCase\<close>, the Unicode
  case mapping; \<open>numberToString\<close> is \<open>String(n)\<close> for a number \<open>n\<close> (the shortest
  numeral that reads back as the same double, \<open>1e+21\<close> for \<open>10^21\<close>, \<open>Infinity\<close>);
  \<open>addLength x n\<close> is the double \<open>x + n\<close> for a number \<open>x\<close> and the length \<open>n\<close> of a
  string, which is the nearest double to the sum and not always the sum.
\<close>

record host =
  toLower :: "jsstring \<Rightarrow> jsstring"
  numberToString :: "jsnum \<Rightarrow> jsstring"
  addLength :: "jsnum \<Rightarrow> nat \<Rightarrow> jsnum"

definition getp :: "jsobject \<Rightarrow> jsstring \<Rightarrow> jsval" where
  \<comment> \<open>\<open>obj.key\<close> for a key that \<open>Object.prototype\<close> does not define\<close>
  "getp obj k = (case map_of obj k of Some v \<Rightarrow> v | None \<Rightarrow> JUndefined)"

fun truthy :: "jsval \<Rightarrow> bool" where
  "truthy JUndefined = False"
| "truthy JNull = False"
| "truthy (JBool b) = b"
| "truthy (JNum n) = (n \<noteq> Finite 0)"
| "truthy (JStr s) = (s \<noteq> [])"
| "truthy (JArr xs) = True"
| "truthy (JObj kvs) = True"

function digits :: "nat \<Rightarrow> jsstring" where
  "digits n = (if n < 10 then [48 + n] else digits (n div 10) @ [48 + n mod 10])"
  by pat_completeness auto
termination
  by (relation "measure id") auto

declare digits.simps [simp del]

definition show_int :: "int \<Rightarrow> jsstring" where
  \<comment> \<open>the decimal numeral of an integer (45 is the minus sign): what a template
      literal makes of an integer below \<open>10^21\<close> in absolute value\<close>
  "show_int n = (if n < 0 then 45 # digits (nat (- n)) else digits (nat n))"

text \<open>
  \<open>String(v)\<close>. \<open>None\<close> stands for the TypeError of an object that cannot be converted
  to a primitive: an object parsed from JSON whose own property \<open>toString\<close> shadows
  \<open>Object.prototype.toString\<close> with a value that cannot be called. An array is joined
  with commas (code unit 44), null and undefined elements giving the empty string.
\<close>

function ToString :: "host \<Rightarrow> jsval \<Rightarrow> jsstring option"
  and join_elems :: "host \<Rightarrow> jsval list \<Rightarrow> jsstring option" where
  "ToString env JUndefined = Some (str ''undefined'')"
| "ToString env JNull = Some (str ''null'')"
| "ToString env (JBool b) = Some (if b then str ''true'' else str ''false'')"
| "ToString env (JNum n) = Some (numberToString env n)"
| "ToString env (JStr s) = Some s"
| "ToString env (JArr xs) = join_elems env xs"
| "ToString env (JObj kvs) =
     (if map_of kvs (str ''toString'') \<noteq> None then None
      else Some (str ''[object Object]''))"
| "join_elems env [] = Some []"
| "join_elems env (x # xs) =
     (case (if x = JUndefined \<or> x = JNull then Some [] else ToString env x) of
        None \<Rightarrow> None
      | Some s \<Rightarrow>
          (if xs = [] then Some s
           else (case join_elems env xs of None \<Rightarrow> None | Some r \<Rightarrow> Some (s @ 44 # r))))"
  by pat_completeness auto
termination
  by (relation "measure (\<lambda>v. case v of Inl (env, x) \<Rightarrow> size x
                                     | Inr (env, xs) \<Rightarrow> size_list size xs)")
    auto

definition or_empty :: "jsval \<Rightarrow> jsval" where
  \<comment> \<open>\<open>v || ''\<close>\<close>
  "or_empty v = (if truthy v then v else JStr [])"

definition or_zero :: "jsnum \<Rightarrow> jsnum" where
  \<comment> \<open>\<open>n || 0\<close> for a number \<open>n\<close>\<close>
  "or_zero n = (if n = Finite 0 then Finite 0 else n)"

definition math_min :: "rat \<Rightarrow> jsnum \<Rightarrow> jsnum" where
  \<comment> \<open>\<open>Math.min(len, x)\<close> for a finite \<open>len\<close>\<close>
  "math_min len x =
     (case x of
        Finite r \<Rightarrow> Finite (min len r)
      | PosInfinity \<Rightarrow> Finite len
      | NegInfinity \<Rightarrow> NegInfinity)"

definition clamp :: "rat \<Rightarrow> jsnum \<Rightarrow> rat \<Rightarrow> rat" where
  \<comment> \<open>\<open>Math.max(lo, Math.min(x, hi))\<close> for finite \<open>lo\<close> and \<open>hi\<close>\<close>
  "clamp lo x hi =
     (case x of
        Finite r \<Rightarrow> max lo (min r hi)
      | PosInfinity \<Rightarrow> max lo hi
      | NegInfinity \<Rightarrow> lo)"

section \<open>String operations\<close>

definition trunc :: "rat \<Rightarrow> int" where
  \<comment> \<open>the integer part of a number: \<open>slice\<close> drops the fraction of its arguments\<close>
  "trunc r = (if r < 0 then \<lceil>r\<rceil> else \<lfloor>r\<rfloor>)"

definition slice :: "jsstring \<Rightarrow> rat \<Rightarrow> rat \<Rightarrow> jsstring" where
  \<comment> \<open>\<open>s.slice(a, b)\<close>: the arguments are truncated, a negative index counts from
      the end, both are clamped\<close>
  "slice s a b =
     (let len = int (length s);
          from = (if trunc a < 0 then max (len + trunc a) 0 else min (trunc a) len);
          to = (if trunc b < 0 then max (len + trunc b) 0 else min (trunc b) len)
      in take (nat (to - from)) (drop (nat from) s))"

definition matches_at :: "jsstring \<Rightarrow> jsstring \<Rightarrow> nat \<Rightarrow> bool" where
  "matches_at h n k = (take (length n) (drop k h) = n)"

definition indexOf :: "jsstring \<Rightarrow> jsstring \<Rightarrow> int \<Rightarrow> int" where
  \<comment> \<open>\<open>h.indexOf(n, from)\<close>: the position is clamped to \<open>[0, h.length]\<close>; the empty
      string is found at the clamped position itself\<close>
  "indexOf h n from =
     (case find (matches_at h n) [nat (min (max from 0) (int (length h))) ..< Suc (length h)] of
        Some k \<Rightarrow> int k
      | None \<Rightarrow> - 1)"

text \<open>
  The \<open>while (true)\<close> loop of \<open>findNearestIndex\<close> and \<open>findNearestIndexCI\<close>: it leaves
  only when \<open>indexOf\<close> answers -1, so \<open>None\<close> is the loop that never ends.
\<close>

partial_function (option) collect_occurrences ::
  "jsstring \<Rightarrow> jsstring \<Rightarrow> int \<Rightarrow> int list \<Rightarrow> int list option" where
  "collect_occurrences h n from occurrences =
     (let idx = indexOf h n from
      in if idx = - 1 then Some occurrences
         else collect_occurrences h n (idx + 1) (occurrences @ [idx]))"

declare collect_occurrences.simps [code]

text \<open>
  The distance \<open>Math.abs(occurrences[i] - approxIndex)\<close> is taken between an index of
  the text and \<open>approxIndex\<close>, which at both call sites is the clamped start, a double
  between 0 and the length of the text. It is modelled by the exact distance. The
  difference that the program computes is a double, but the comparison
  \<open>d < bestDist\<close> comes out as it does for the exact distances: an index below
  \<open>approxIndex\<close> gives a difference that is a double already; two indices above it
  differ by 1 or more, which no rounding closes; and where a difference above is not a
  double it exceeds \<open>approxIndex\<close>, hence every difference below, and rounds to a
  double that still does.
\<close>

fun nearest_loop :: "rat \<Rightarrow> int list \<Rightarrow> int \<Rightarrow> rat \<Rightarrow> int" where
  \<comment> \<open>the \<open>for\<close> loop over \<open>occurrences[1..]\<close>, carrying \<open>best\<close> and \<open>bestDist\<close>\<close>
  "nearest_loop approxIndex [] best bestDist = best"
| "nearest_loop approxIndex (x # xs) best bestDist =
     (let d = \<bar>of_int x - approxIndex\<bar>
      in if d < bestDist then nearest_loop approxIndex xs x d
         else nearest_loop approxIndex xs best bestDist)"

definition pick_nearest :: "int list \<Rightarrow> rat \<Rightarrow> int" where
  \<comment> \<open>the tail of both search functions, from \<open>if (occurrences.length === 0)\<close> on;
      \<open>approxIndex\<close> is a number at both call sites, so the null/NaN branch is dead\<close>
  "pick_nearest occurrences approxIndex =
     (case occurrences of
        [] \<Rightarrow> - 1
      | first # rest \<Rightarrow> nearest_loop approxIndex rest first \<bar>of_int first - approxIndex\<bar>)"

definition length_is_zero :: "jsval \<Rightarrow> bool" where
  \<comment> \<open>\<open>needle.length === 0\<close>\<close>
  "length_is_zero v =
     (case v of
        JStr s \<Rightarrow> s = []
      | JArr xs \<Rightarrow> xs = []
      | JObj kvs \<Rightarrow> map_of kvs (str ''length'') = Some (JNum (Finite 0))
      | _ \<Rightarrow> False)"

definition findNearestIndex :: "host \<Rightarrow> jsstring \<Rightarrow> jsval \<Rightarrow> rat \<Rightarrow> int outcome" where
  \<comment> \<open>\<open>indexOf\<close> converts a needle that is not a string with \<open>String\<close>\<close>
  "findNearestIndex env haystack needle approxIndex =
     (if \<not> truthy needle \<or> length_is_zero needle then Returns (- 1)
      else
        (case ToString env needle of
           None \<Rightarrow> Throws TypeError
         | Some n \<Rightarrow>
             (case collect_occurrences haystack n 0 [] of
                None \<Rightarrow> Diverges
              | Some occurrences \<Rightarrow> Returns (pick_nearest occurrences approxIndex))))"

text \<open>
  \<open>toLowerCase\<close> below gives the values of the host's case mapping on Basic Latin, the
  Latin-1 Supplement and U+0130 (LATIN CAPITAL LETTER I WITH DOT ABOVE), whose lower case
  is the two code units U+0069 U+0307; it is used where a concrete text over these is
  evaluated.
\<close>

definition lower_unit :: "nat \<Rightarrow> jsstring" where
  "lower_unit c =
     (if 65 \<le> c \<and> c \<le> 90 then [c + 32]
      else if 192 \<le> c \<and> c \<le> 222 \<and> c \<noteq> 215 then [c + 32]
      else if c = 304 then [105, 775]
      else [c])"

definition toLowerCase :: "jsstring \<Rightarrow> jsstring" where
  "toLowerCase s = concat (map lower_unit s)"

definition findNearestIndexCI :: "host \<Rightarrow> jsstring \<Rightarrow> jsval \<Rightarrow> rat \<Rightarrow> int outcome" where
  \<comment> \<open>\<open>(needle || '').toLowerCase()\<close> is a TypeError unless the operand is a string\<close>
  "findNearestIndexCI env haystack needle approxIndex =
     (let hayLower = toLower env haystack
      in case or_empty needle of
           JStr s \<Rightarrow>
             (let needLower = toLower env s
              in if needLower = [] then Returns (- 1)
                 else
                   (case collect_occurrences hayLower needLower 0 [] of
                      None \<Rightarrow> Diverges
                    | Some occurrences \<Rightarrow> Returns (pick_nearest occurrences approxIndex)))
         | _ \<Rightarrow> Throws TypeError)"

section \<open>Sanitising strings\<close>

definition is_control :: "nat \<Rightarrow> bool" where
  \<comment> \<open>the class \<open>[\u0000-\u0008\u000B\u000C\u000E-\u001F\u007F]\<close>\<close>
  "is_control c = (c \<le> 8 \<or> c = 11 \<or> c = 12 \<or> (14 \<le> c \<and> c \<le> 31) \<or> c = 127)"

definition is_space :: "nat \<Rightarrow> bool" where
  \<comment> \<open>the class \<open>\s\<close>, which is also what \<open>trim\<close> strips\<close>
  "is_space c =
     (c = 9 \<or> c = 10 \<or> c = 11 \<or> c = 12 \<or> c = 13 \<or> c = 32 \<or> c = 160 \<or> c = 5760
      \<or> (8192 \<le> c \<and> c \<le> 8202) \<or> c = 8232 \<or> c = 8233 \<or> c = 8239 \<or> c = 8287
      \<or> c = 12288 \<or> c = 65279)"

function collapse_spaces :: "jsstring \<Rightarrow> jsstring" where
  \<comment> \<open>\<open>s.replace(/\s+/g, ' ')\<close>\<close>
  "collapse_spaces [] = []"
| "collapse_spaces (c # cs) =
     (if is_space c then 32 # collapse_spaces (dropWhile is_space cs)
      else c # collapse_spaces cs)"
  by pat_completeness auto
termination
  by (relation "measure length") (auto simp: less_Suc_eq_le length_dropWhile_le)

definition trim :: "jsstring \<Rightarrow> jsstring" where
  "trim s = rev (dropWhile is_space (rev (dropWhile is_space s)))"

definition sanitizeString :: "jsstring \<Rightarrow> nat \<Rightarrow> jsstring" where
  \<comment> \<open>the argument is a string at both call sites, so nothing in the \<open>try\<close> can throw\<close>
  "sanitizeString input maxLen =
     (let s = map (\<lambda>c. if is_control c then 32 else c) input;
          s = trim (collapse_spaces s)
      in if maxLen > 0 \<and> length s > maxLen then slice s 0 (of_nat maxLen) else s)"

section \<open>The reconciliation loop of checkTextWithOpenAI\<close>

definition basicSuggestionShapeValid :: "jsval \<Rightarrow> bool" where
  \<comment> \<open>an array is an object too, but has none of the required keys\<close>
  "basicSuggestionShapeValid suggestion =
     (case suggestion of
        JObj kvs \<Rightarrow>
          list_all (\<lambda>field. map_of kvs field \<noteq> None)
            [str ''category'', str ''message'', str ''before'', str ''after'',
             str ''start'', str ''end'']
      | _ \<Rightarrow> False)"

definition category_ok :: "jsobject \<Rightarrow> bool" where
  "category_ok s =
     (getp s (str ''category'') \<in>
        set [JStr (str ''typo''), JStr (str ''baku''), JStr (str ''eyd''), JStr (str ''konteks'')])"

definition severity_ok :: "jsobject \<Rightarrow> bool" where
  "severity_ok s =
     (\<not> (truthy (getp s (str ''severity'')) \<and>
         getp s (str ''severity'') \<notin>
           set [JStr (str ''low''), JStr (str ''medium''), JStr (str ''high'')]))"

text \<open>
  Lines 496 to 536: the bounds are coerced and clamped, the slice is compared with
  \<open>before\<close>, and a mismatch is repaired by the exact search, then by the
  case-insensitive one. \<open>Returns None\<close> is the \<open>continue\<close> of a candidate that cannot be
  mapped; \<open>Returns (Some (start, end, actualText))\<close> is the span that goes on to the
  overlap check. A clamped bound is a finite number between 0 and the length of the
  text, and it keeps the fraction that the candidate gave it.
\<close>

definition clamp_bounds :: "host \<Rightarrow> jsstring \<Rightarrow> jsobject \<Rightarrow> (rat \<times> rat) outcome" where
  "clamp_bounds env text s =
     (let before0 = getp s (str ''before'');
          len = of_nat (length text);
          start = (case getp s (str ''start'') of JNum n \<Rightarrow> n | _ \<Rightarrow> Finite 0)
      in case (case getp s (str ''end'') of
                 JNum n \<Rightarrow> Some n
               | _ \<Rightarrow>
                   (case ToString env (or_empty before0) of
                      None \<Rightarrow> None
                    | Some b \<Rightarrow> Some (math_min len (addLength env (or_zero start) (length b)))))
         of None \<Rightarrow> Throws TypeError
          | Some end \<Rightarrow>
              (let start = clamp 0 start len;
                   end = clamp start end len
               in Returns (start, end)))"

definition before_length :: "host \<Rightarrow> jsval \<Rightarrow> int outcome" where
  \<comment> \<open>\<open>String(before || '').length\<close>\<close>
  "before_length env before0 =
     (case ToString env (or_empty before0) of
        None \<Rightarrow> Throws TypeError
      | Some b \<Rightarrow> Returns (int (length b)))"

definition locate ::
  "host \<Rightarrow> jsstring \<Rightarrow> jsobject \<Rightarrow> (rat \<times> rat \<times> jsstring) option outcome" where
  "locate env text s =
     (let before0 = getp s (str ''before'')
      in case clamp_bounds env text s of
           Throws e \<Rightarrow> Throws e
         | Diverges \<Rightarrow> Diverges
         | Returns (start, end) \<Rightarrow>
             (let actualText = slice text start end
              in if JStr actualText = before0 then Returns (Some (start, end, actualText))
                 else
                   (case findNearestIndex env text before0 start of
                      Throws e \<Rightarrow> Throws e
                    | Diverges \<Rightarrow> Diverges
                    | Returns idxExact \<Rightarrow>
                        if idxExact \<noteq> - 1 then
                          (case before_length env before0 of
                             Throws e \<Rightarrow> Throws e
                           | Diverges \<Rightarrow> Diverges
                           | Returns n \<Rightarrow>
                               Returns (Some (of_int idxExact, of_int (idxExact + n),
                                 slice text (of_int idxExact) (of_int (idxExact + n)))))
                        else
                          (case findNearestIndexCI env text before0 start of
                             Throws e \<Rightarrow> Throws e
                           | Diverges \<Rightarrow> Diverges
                           | Returns idxCI \<Rightarrow>
                               if idxCI \<noteq> - 1 then
                                 (case before_length env before0 of
                                    Throws e \<Rightarrow> Throws e
                                  | Diverges \<Rightarrow> Diverges
                                  | Returns n \<Rightarrow>
                                      Returns (Some (of_int idxCI, of_int (idxCI + n),
                                        slice text (of_int idxCI) (of_int (idxCI + n)))))
                               else Returns None))))"

definition overlaps :: "(rat \<times> rat) list \<Rightarrow> rat \<Rightarrow> rat \<Rightarrow> bool" where
  "overlaps takenRanges s e = list_ex (\<lambda>(ts, te). \<not> (e \<le> ts \<or> s \<ge> te)) takenRanges"

definition after_string :: "host \<Rightarrow> jsval \<Rightarrow> jsstring option" where
  \<comment> \<open>\<open>typeof after === 'string' ? after : String(after ?? '')\<close>\<close>
  "after_string env a =
     (case a of
        JStr s \<Rightarrow> Some s
      | JUndefined \<Rightarrow> Some []
      | JNull \<Rightarrow> Some []
      | _ \<Rightarrow> ToString env a)"

definition synth_id :: "int \<Rightarrow> nat \<Rightarrow> jsstring" where
  \<comment> \<open>the template \<open>sg-${Date.now()}-${i}\<close>: both are integers, far below \<open>10^21\<close>\<close>
  "synth_id now i = str ''sg-'' @ show_int now @ str ''-'' @ show_int (int i)"

text \<open>
  Lines 544 to 561: the accepted candidate is spread into a new object, five of its
  fields are overwritten, and an id is made from the clock when the candidate has none.
  \<open>clock i\<close> is what \<open>Date.now()\<close> answers in iteration \<open>i\<close>.
\<close>

definition build_fixed ::
  "host \<Rightarrow> (nat \<Rightarrow> int) \<Rightarrow> nat \<Rightarrow> jsobject \<Rightarrow> rat \<Rightarrow> rat \<Rightarrow> jsstring \<Rightarrow> jsobject outcome" where
  "build_fixed env clock i s start end actualText =
     (case ToString env (getp s (str ''message'')) of
        None \<Rightarrow> Throws TypeError
      | Some m \<Rightarrow>
          (case after_string env (getp s (str ''after'')) of
             None \<Rightarrow> Throws TypeError
           | Some a \<Rightarrow>
               (let fixed =
                      AList.update (str ''message'') (JStr (sanitizeString m 200))
                        (AList.update (str ''after'') (JStr (sanitizeString a 100))
                          (AList.update (str ''before'') (JStr actualText)
                            (AList.update (str ''end'') (JNum (Finite end))
                              (AList.update (str ''start'') (JNum (Finite start)) s))))
                in Returns
                     (if \<not> truthy (getp fixed (str ''id''))
                      then AList.update (str ''id'') (JStr (synth_id (clock i) i)) fixed
                      else fixed))))"

text \<open>
  One iteration of the \<open>for\<close> loop over the candidates: \<open>Returns None\<close> is a
  \<open>continue\<close>, \<open>Returns (Some ((start, end), fixed))\<close> the two pushes.
\<close>

definition candidate_step ::
  "host \<Rightarrow> (nat \<Rightarrow> int) \<Rightarrow> jsstring \<Rightarrow> (rat \<times> rat) list \<Rightarrow> nat \<Rightarrow> jsval
     \<Rightarrow> ((rat \<times> rat) \<times> jsobject) option outcome" where
  "candidate_step env clock text takenRanges i suggestion =
     (if \<not> basicSuggestionShapeValid suggestion then Returns None
      else
        (case suggestion of
           JObj s \<Rightarrow>
             if \<not> category_ok s then Returns None
             else if \<not> severity_ok s then Returns None
             else
               (case locate env text s of
                  Throws e \<Rightarrow> Throws e
                | Diverges \<Rightarrow> Diverges
                | Returns None \<Rightarrow> Returns None
                | Returns (Some (start, end, actualText)) \<Rightarrow>
                    if overlaps takenRanges start end then Returns None
                    else
                      (case build_fixed env clock i s start end actualText of
                         Throws e \<Rightarrow> Throws e
                       | Diverges \<Rightarrow> Diverges
                       | Returns fixed \<Rightarrow> Returns (Some ((start, end), fixed))))
         | _ \<Rightarrow> Returns None))"

fun reconcile_loop ::
  "host \<Rightarrow> (nat \<Rightarrow> int) \<Rightarrow> jsstring \<Rightarrow> nat \<Rightarrow> jsval list
     \<Rightarrow> (rat \<times> rat) list \<Rightarrow> jsobject list \<Rightarrow> jsobject list outcome" where
  "reconcile_loop env clock text i [] takenRanges processedSuggestions =
     Returns processedSuggestions"
| "reconcile_loop env clock text i (suggestion # rest) takenRanges processedSuggestions =
     (case candidate_step env clock text takenRanges i suggestion of
        Throws e \<Rightarrow> Throws e
      | Diverges \<Rightarrow> Diverges
      | Returns None \<Rightarrow>
          reconcile_loop env clock text (Suc i) rest takenRanges processedSuggestions
      | Returns (Some (taken, fixed)) \<Rightarrow>
          (if length (processedSuggestions @ [fixed]) \<ge> 20
           then Returns (processedSuggestions @ [fixed])
           else reconcile_loop env clock text (Suc i) rest
                  (takenRanges @ [taken]) (processedSuggestions @ [fixed])))"

definition reconcile ::
  "host \<Rightarrow> (nat \<Rightarrow> int) \<Rightarrow> jsstring \<Rightarrow> jsval list \<Rightarrow> jsobject list outcome" where
  \<comment> \<open>lines 470 to 570, from the candidate array on\<close>
  "reconcile env clock text suggestions = reconcile_loop env clock text 0 suggestions [] []"

section \<open>The model gateway: parsing with repair and the strict retry\<close>




















section \<open>The in-memory rate limiter\<close>

definition maxRequests :: nat where
  "maxRequests = 10"

definition windowMs :: int where
  "windowMs = 60000"

text \<open>
  \<open>rateLimitStore\<close> is a \<open>Map\<close> from a client id to the array of its request times.
  \<open>checkRateLimitInMemory\<close> reads the clock once (\<open>now\<close>) and returns its answer with
  the store as it leaves it.
\<close>

type_synonym rate_store = "jsstring \<rightharpoonup> int list"

definition checkRateLimitInMemory ::
  "int \<Rightarrow> jsstring \<Rightarrow> rate_store \<Rightarrow> bool \<times> rate_store" where
  "checkRateLimitInMemory now clientId rateLimitStore =
     (let requests = (case rateLimitStore clientId of Some r \<Rightarrow> r | None \<Rightarrow> []);
          validRequests = filter (\<lambda>time. now - time < windowMs) requests
      in if length validRequests \<ge> maxRequests then (False, rateLimitStore)
         else (True, rateLimitStore(clientId \<mapsto> validRequests @ [now])))"

fun calls :: "jsstring \<Rightarrow> int list \<Rightarrow> rate_store \<Rightarrow> bool list \<times> rate_store" where
  \<comment> \<open>one client calling at the given times, one call after the other\<close>
  "calls clientId [] store = ([], store)"
| "calls clientId (now # later) store =
     (case checkRateLimitInMemory now clientId store of
        (allowed, store') \<Rightarrow>
          (case calls clientId later store' of
             (answers, store'') \<Rightarrow> (allowed # answers, store'')))"

section \<open>Notions the statements use\<close>

definition occurs_at :: "jsstring \<Rightarrow> jsstring \<Rightarrow> nat \<Rightarrow> bool" where
  \<comment> \<open>\<open>n\<close> stands in \<open>h\<close> at position \<open>k\<close>, code unit for code unit\<close>
  "occurs_at h n k = (k + length n \<le> length h \<and> take (length n) (drop k h) = n)"

definition occurrences_from :: "jsstring \<Rightarrow> jsstring \<Rightarrow> nat \<Rightarrow> int list" where
  \<comment> \<open>the positions from \<open>k\<close> on at which \<open>n\<close> stands, ascending\<close>
  "occurrences_from h n k = map int (filter (matches_at h n) [k ..< Suc (length h)])"

definition span_overlap :: "rat \<times> rat \<Rightarrow> rat \<times> rat \<Rightarrow> bool" where
  \<comment> \<open>the half-open test \<open>A.start < B.end && B.start < A.end\<close>\<close>
  "span_overlap A B = (fst A < snd B \<and> fst B < snd A)"

definition span_of :: "jsobject \<Rightarrow> (rat \<times> rat) option" where
  \<comment> \<open>the \<open>start\<close> and \<open>end\<close> of a suggestion, when both are finite numbers\<close>
  "span_of s =
     (case (getp s (str ''start''), getp s (str ''end'')) of
        (JNum (Finite a), JNum (Finite b)) \<Rightarrow> Some (a, b)
      | _ \<Rightarrow> None)"

definition normalized_keys :: "jsstring list" where
  "normalized_keys =
     [str ''start'', str ''end'', str ''before'', str ''after'', str ''message'', str ''id'']"

definition map_outcome :: "('a \<Rightarrow> 'b) \<Rightarrow> 'a outcome \<Rightarrow> 'b outcome" where
  "map_outcome f r = (case r of Returns x \<Rightarrow> Returns (f x) | Throws e \<Rightarrow> Throws e | Diverges \<Rightarrow> Diverges)"

definition drop_id ::
  "((rat \<times> rat) \<times> jsobject) option \<Rightarrow> ((rat \<times> rat) \<times> jsobject) option" where
  \<comment> \<open>what an iteration yields, with the \<open>id\<close> of the object left out\<close>
  "drop_id r = map_option (\<lambda>(sp, f). (sp, AList.delete (str ''id'') f)) r"

definition recorded :: "rate_store \<Rightarrow> jsstring \<Rightarrow> int list" where
  \<comment> \<open>\<open>rateLimitStore.get(clientId) || []\<close>\<close>
  "recorded store clientId = (case store clientId of Some r \<Rightarrow> r | None \<Rightarrow> [])"

definition in_window :: "int \<Rightarrow> int list \<Rightarrow> int list" where
  \<comment> \<open>the recorded times that lie within the trailing window at \<open>now\<close>\<close>
  "in_window now requests = filter (\<lambda>time. now - time < windowMs) requests"

section \<open>Inputs the statements are evaluated on\<close>

definition decimal :: "jsnum \<Rightarrow> jsstring" where
  \<comment> \<open>\<open>String(n)\<close> for an integer \<open>n\<close> below \<open>10^21\<close> in absolute value and for the
      infinities\<close>
  "decimal n =
     (case n of
        Finite r \<Rightarrow> show_int \<lfloor>r\<rfloor>
      | PosInfinity \<Rightarrow> str ''Infinity''
      | NegInfinity \<Rightarrow> str ''-Infinity'')"

definition exact_sum :: "jsnum \<Rightarrow> nat \<Rightarrow> jsnum" where
  \<comment> \<open>\<open>x + n\<close> where the sum is a double, as it is for an integer \<open>x\<close> below \<open>2^53\<close>\<close>
  "exact_sum x n =
     (case x of
        Finite r \<Rightarrow> Finite (r + of_nat n)
      | PosInfinity \<Rightarrow> PosInfinity
      | NegInfinity \<Rightarrow> NegInfinity)"

definition host0 :: host where
  \<comment> \<open>the host on ASCII and Latin-1 texts and integer numbers\<close>
  "host0 = \<lparr>toLower = toLowerCase, numberToString = decimal, addLength = exact_sum\<rparr>"

definition candidate :: "jsstring \<Rightarrow> rat \<Rightarrow> rat \<Rightarrow> jsobject" where
  \<comment> \<open>a candidate with the six required fields and no id\<close>
  "candidate b s e =
     [(str ''category'', JStr (str ''typo'')), (str ''message'', JStr (str ''salah ketik'')),
      (str ''before'', JStr b), (str ''after'', JStr (str ''x'')),
      (str ''start'', JNum (Finite s)), (str ''end'', JNum (Finite e))]"

definition clock0 :: "nat \<Rightarrow> int" where
  "clock0 i = 1700000000000"

definition clock1 :: "nat \<Rightarrow> int" where
  "clock1 i = 1700000000001"

definition suggestion :: "jsstring \<Rightarrow> rat \<Rightarrow> rat \<Rightarrow> jsstring \<Rightarrow> jsobject" where
  \<comment> \<open>what \<open>candidate\<close> becomes once accepted at a span, with the id made for it\<close>
  "suggestion b s e ident =
     [(str ''category'', JStr (str ''typo'')), (str ''message'', JStr (str ''salah ketik'')),
      (str ''before'', JStr b), (str ''after'', JStr (str ''x'')),
      (str ''start'', JNum (Finite s)), (str ''end'', JNum (Finite e)),
      (str ''id'', JStr ident)]"

definition noisy :: jsobject where
  \<comment> \<open>a candidate whose \<open>message\<close>, \<open>after\<close> and \<open>examples\<close> hold blanks, a tab and
      the control characters U+0007 and U+0000, with a \<open>confidence\<close> of 0.9\<close>
  "noisy =
     [(str ''category'', JStr (str ''typo'')),
      (str ''message'', JStr ([32, 32] @ str ''salah'' @ [9, 7] @ str ''ketik'' @ [32])),
      (str ''before'', JStr (str ''Sya'')), (str ''after'', JStr (str ''Saya'' @ [0])),
      (str ''start'', JNum (Finite 0)), (str ''end'', JNum (Finite 3)),
      (str ''confidence'', JNum (Finite (9 / 10))),
      (str ''examples'', JArr [JStr ([32, 7] @ str ''Saya  makan'')])]"

definition noisy_out :: jsobject where
  "noisy_out =
     [(str ''category'', JStr (str ''typo'')),
      (str ''message'', JStr (str ''salah ketik'')),
      (str ''before'', JStr (str ''Sya'')), (str ''after'', JStr (str ''Saya'')),
      (str ''start'', JNum (Finite 0)), (str ''end'', JNum (Finite 3)),
      (str ''confidence'', JNum (Finite (9 / 10))),
      (str ''examples'', JArr [JStr ([32, 7] @ str ''Saya  makan'')]),
      (str ''id'', JStr (str ''sg-1700000000000-0''))]"

definition text25 :: jsstring where
  "text25 = str ''abcdefghijklmnopqrstuvwxy''"

definition cands25 :: "jsval list" where
  \<comment> \<open>25 candidates, the k-th one for the single code unit at position k\<close>
  "cands25 = map (\<lambda>k. JObj (candidate [text25 ! k] (of_nat k) (of_nat k + 1))) [0..<25]"

definition spans25 :: "(rat \<times> rat) list" where
  "spans25 = map (\<lambda>k. (of_nat k, of_nat k + 1)) [0..<25]"

definition accepted25 :: "jsobject list" where
  "accepted25 =
     map (\<lambda>k. suggestion [text25 ! k] (of_nat k) (of_nat k + 1) (synth_id (clock0 k) k)) [0..<25]"







section \<open>The occurrences that the search loop collects\<close>

lemma find_upt_None: "find P [a..<b] = None \<Longrightarrow> filter P [a..<b] = []"
  by (simp add: find_None_iff filter_empty_conv)

lemma find_upt_Some:
  assumes "find P [a..<b] = Some k"
  shows "a \<le> k \<and> k < b \<and> filter P [a..<b] = k # filter P [Suc k..<b]"
proof -
  from assms obtain i where i: "i < length [a..<b]" "P ([a..<b] ! i)" "k = [a..<b] ! i"
    "\<forall>j<i. \<not> P ([a..<b] ! j)"
    unfolding find_Some_iff by blast
  then have k: "k = a + i" "a + i < b" by auto
  have split: "[a..<b] = [a..<k] @ k # [Suc k..<b]"
    using k by (metis le_add1 upt_add_eq_append upt_conv_Cons less_imp_le_nat le_Suc_ex)
  have none: "filter P [a..<k] = []"
    using i(4) k by (auto simp: filter_empty_conv) (metis add.commute le_add_diff_inverse2 nat_add_left_cancel_less)
  show ?thesis using k i(2,3) none by (subst split) auto
qed

lemma matches_at_end: "n \<noteq> [] \<Longrightarrow> length h \<le> k \<Longrightarrow> \<not> matches_at h n k"
  by (auto simp: matches_at_def)

lemma collect_occurrences_nonempty:
  assumes "n \<noteq> []"
  shows "0 \<le> from \<Longrightarrow>
    collect_occurrences h n from acc = Some (acc @ occurrences_from h n (nat from))"
proof (induction "Suc (length h) - nat from" arbitrary: "from" acc rule: less_induct)
  case less
  let ?len = "length h"
  let ?s = "nat (min (max from 0) (int ?len))"
  show ?case
  proof (cases "find (matches_at h n) [?s..<Suc ?len]")
    case None
    have "filter (matches_at h n) [nat from..<Suc ?len] = []"
    proof (cases "from \<le> int ?len")
      case True
      then have "?s = nat from" using less.prems by simp
      with None show ?thesis using find_upt_None by metis
    next
      case False
      then have "\<And>k. k \<in> set [nat from..<Suc ?len] \<Longrightarrow> \<not> matches_at h n k"
        using assms matches_at_end by auto
      then show ?thesis by (simp add: filter_empty_conv)
    qed
    moreover have "indexOf h n from = - 1" using None by (simp add: indexOf_def)
    ultimately show ?thesis
      by (subst collect_occurrences.simps) (simp add: occurrences_from_def Let_def del: upt_Suc)
  next
    case (Some k)
    have k: "?s \<le> k" "k < Suc ?len"
      using find_upt_Some[OF Some] by blast+
    have f: "filter (matches_at h n) [?s..<Suc ?len] = k # filter (matches_at h n) [Suc k..<Suc ?len]"
      using find_upt_Some[OF Some] by blast
    have mk: "matches_at h n k" using f by (metis filter_eq_ConsD)
    have klt: "k < ?len" using mk matches_at_end[OF assms, of h k] k by (meson not_le)
    have fle: "from \<le> int ?len" using k klt less.prems by linarith
    then have s: "?s = nat from" using less.prems by simp
    have idx: "indexOf h n from = int k" using Some by (simp add: indexOf_def)
    have rec: "collect_occurrences h n (int k + 1) (acc @ [int k]) =
        Some ((acc @ [int k]) @ occurrences_from h n (nat (int k + 1)))"
      by (rule less.hyps) (use k s klt less.prems in auto)
    have unfold: "collect_occurrences h n from acc =
        collect_occurrences h n (int k + 1) (acc @ [int k])"
      by (subst collect_occurrences.simps) (simp add: idx Let_def)
    have f': "filter (matches_at h n) [nat from..<Suc ?len] =
        k # filter (matches_at h n) [Suc k..<Suc ?len]"
      using f unfolding s .
    have sk: "nat (int k + 1) = Suc k" by simp
    have "occurrences_from h n (nat from) = int k # occurrences_from h n (nat (int k + 1))"
      unfolding occurrences_from_def f' sk by simp
    with unfold rec show ?thesis by simp
  qed
qed


section \<open>Objects and their keys\<close>

lemma getp_update: "getp (AList.update k v al) k' = (if k' = k then v else getp al k')"
  by (simp add: getp_def update_conv')

lemma map_of_update_other: "k' \<noteq> k \<Longrightarrow> map_of (AList.update k v al) k' = map_of al k'"
  by (simp add: update_conv')

lemma str_eq_iff [simp]: "str a = str b \<longleftrightarrow> a = b"
proof -
  have "inj (of_char :: char \<Rightarrow> nat)" by (rule injI) simp
  then show ?thesis unfolding str_def by (simp add: inj_map_eq_map)
qed

section \<open>Truncation\<close>

lemma trunc_simps:
  "trunc 0 = 0" "trunc 1 = 1" "trunc (numeral n) = numeral n"
  "trunc (of_int k) = k" "trunc (of_nat m) = int m"
  "trunc (numeral a / numeral b) = numeral a div numeral b"
  "trunc (1 / numeral b) = 1 div numeral b"
proof -
  show "trunc 0 = 0" "trunc 1 = 1" "trunc (numeral n) = numeral n"
    "trunc (of_int k) = k" "trunc (of_nat m) = int m"
    by (simp_all add: trunc_def)
  have "\<lfloor>rat_of_int (numeral a) / rat_of_int (numeral b)\<rfloor> = numeral a div numeral b"
    by (rule floor_divide_of_int_eq)
  then show "trunc (numeral a / numeral b) = numeral a div numeral b"
    by (simp add: trunc_def)
  have "\<lfloor>rat_of_int 1 / rat_of_int (numeral b)\<rfloor> = 1 div numeral b"
    by (rule floor_divide_of_int_eq)
  then show "trunc (1 / numeral b) = 1 div numeral b"
    by (simp add: trunc_def)
qed

section \<open>What one iteration yields\<close>

lemma locate_slice:
  "locate env text s = Returns (Some (a, b, t)) \<Longrightarrow> t = slice text a b"
  by (auto simp: locate_def Let_def split: outcome.splits prod.splits if_splits)

lemma build_fixed_span:
  assumes "build_fixed env clock i s a b t = Returns f"
  shows "getp f (str ''start'') = JNum (Finite a)" "getp f (str ''end'') = JNum (Finite b)"
    "getp f (str ''before'') = JStr t"
  using assms
  by (auto simp: build_fixed_def Let_def getp_update split: option.splits if_splits)

lemma build_fixed_frame:
  assumes "build_fixed env clock i s a b t = Returns f" "k \<notin> set normalized_keys"
  shows "map_of f k = map_of s k"
  using assms
  by (auto simp: build_fixed_def Let_def normalized_keys_def map_of_update_other
      split: option.splits if_splits)

lemma build_fixed_id:
  assumes "build_fixed env clock i s a b t = Returns f"
  shows "getp f (str ''id'') =
    (if truthy (getp s (str ''id'')) then getp s (str ''id'') else JStr (synth_id (clock i) i))"
  using assms
  by (auto simp: build_fixed_def Let_def getp_update split: option.splits if_splits)

lemma candidate_step_Some:
  assumes "candidate_step env clock text taken i c = Returns (Some ((a, b), f))"
  shows "\<exists>s t. c = JObj s \<and> basicSuggestionShapeValid c \<and> category_ok s \<and> severity_ok s \<and>
    locate env text s = Returns (Some (a, b, t)) \<and> \<not> overlaps taken a b \<and>
    build_fixed env clock i s a b t = Returns f"
  using assms
  by (auto simp: candidate_step_def split: jsval.splits if_splits outcome.splits option.splits)

section \<open>Invariants of the loop, and the slice invariant\<close>

lemma reconcile_loop_invariant:
  assumes "reconcile_loop env clock text i cs taken out = Returns res"
    and "Inv taken out"
    and "\<And>taken out i c sp f. Inv taken out \<Longrightarrow> c \<in> set cs \<Longrightarrow>
      candidate_step env clock text taken i c = Returns (Some (sp, f)) \<Longrightarrow>
      Inv (taken @ [sp]) (out @ [f])"
  shows "\<exists>taken'. Inv taken' res"
  using assms
proof (induction cs arbitrary: i taken out)
  case Nil
  then show ?case by auto
next
  case (Cons c cs)
  have step': "Inv (taken @ [sp]) (out @ [f])"
    if "Inv taken out" "c' \<in> set cs"
      "candidate_step env clock text taken i c' = Returns (Some (sp, f))"
    for taken out i c' sp f
    using Cons.prems(3)[OF that(1) _ that(3)] that(2) by simp
  show ?case
  proof (cases "candidate_step env clock text taken i c")
    case (Returns r)
    show ?thesis
    proof (cases r)
      case None
      with Returns Cons.prems(1)
      have "reconcile_loop env clock text (Suc i) cs taken out = Returns res" by simp
      from Cons.IH[OF this Cons.prems(2) step'] show ?thesis .
    next
      case (Some p)
      obtain sp f where p: "p = (sp, f)" by (cases p)
      have inv': "Inv (taken @ [sp]) (out @ [f])"
        using Cons.prems(3)[OF Cons.prems(2), of c i sp f] Returns Some p by simp
      show ?thesis
      proof (cases "20 \<le> length (out @ [f])")
        case True
        with Returns Some p Cons.prems(1) have "res = out @ [f]" by simp
        with inv' show ?thesis by auto
      next
        case False
        with Returns Some p Cons.prems(1)
        have "reconcile_loop env clock text (Suc i) cs (taken @ [sp]) (out @ [f]) = Returns res"
          by simp
        from Cons.IH[OF this inv' step'] show ?thesis .
      qed
    qed
  next
    case (Throws e)
    with Cons.prems(1) show ?thesis by simp
  next
    case Diverges
    with Cons.prems(1) show ?thesis by simp
  qed
qed

lemma candidate_step_good:
  assumes "candidate_step env clock text taken i c = Returns (Some (sp, f))"
  shows "\<exists>a b. getp f (str ''start'') = JNum (Finite a) \<and> getp f (str ''end'') = JNum (Finite b) \<and>
    getp f (str ''before'') = JStr (slice text a b)"
proof -
  obtain a b where sp: "sp = (a, b)" by (cases sp)
  from candidate_step_Some[OF assms[unfolded sp]] obtain s t where
    l: "locate env text s = Returns (Some (a, b, t))" and
    bf: "build_fixed env clock i s a b t = Returns f" by blast
  from locate_slice[OF l] build_fixed_span[OF bf] show ?thesis by auto
qed

text \<open>
  C1. Every suggestion that the loop returns carries finite numbers as \<open>start\<close> and
  \<open>end\<close>, and its \<open>before\<close> is the string \<open>originalText.slice(start, end)\<close>, code
  unit for code unit, whatever the candidates, the text and the host are, whether or not
  the offsets were repaired, and also where the offsets are not integers: \<open>slice\<close>
  is the one of the program, which drops their fraction.
\<close>

theorem before_is_slice:
  assumes "reconcile env clock text candidates = Returns suggestions"
    and "s \<in> set suggestions"
  shows "\<exists>a b. getp s (str ''start'') = JNum (Finite a) \<and> getp s (str ''end'') = JNum (Finite b) \<and>
    getp s (str ''before'') = JStr (slice text a b)"
proof -
  let ?good = "\<lambda>s. \<exists>a b. getp s (str ''start'') = JNum (Finite a) \<and> getp s (str ''end'') = JNum (Finite b) \<and>
    getp s (str ''before'') = JStr (slice text a b)"
  have "\<exists>taken' :: (rat \<times> rat) list. \<forall>s \<in> set suggestions. ?good s"
  proof (rule reconcile_loop_invariant[OF assms(1)[unfolded reconcile_def],
        where Inv = "\<lambda>taken out. \<forall>s \<in> set out. ?good s"])
    show "\<forall>s \<in> set []. ?good s" by simp
  next
    fix taken out i c sp f
    assume old: "\<forall>s \<in> set out. ?good s"
      and cs: "candidate_step env clock text taken i c = Returns (Some (sp, f))"
    from cs have "?good f" by (rule candidate_step_good)
    with old show "\<forall>s \<in> set (out @ [f]). ?good s" by simp
  qed
  then have "\<forall>s \<in> set suggestions. ?good s" by simp
  then show ?thesis using assms(2) by (rule bspec)
qed


lemmas eval_defs = reconcile_def candidate_step_def basicSuggestionShapeValid_def
  category_ok_def severity_ok_def locate_def clamp_bounds_def getp_def str_def slice_def
  findNearestIndex_def findNearestIndexCI_def collect_occurrences_nonempty occurrences_from_def
  matches_at_def upt_rec pick_nearest_def build_fixed_def sanitizeString_def is_control_def
  is_space_def trim_def synth_id_def show_int_def digits.simps candidate_def suggestion_def
  clock0_def clock1_def toLowerCase_def lower_unit_def overlaps_def or_empty_def length_is_zero_def
  before_length_def after_string_def host0_def trunc_simps clamp_def math_min_def or_zero_def
  Let_def

theorem before_is_slice_witness:
  "reconcile host0 clock0 (str ''Ini adalah demnstrasi'')
     [JObj (candidate (str ''demnstrasi'') 99 109), JObj (candidate (str ''Ini'') (1 / 2) (37 / 10))] =
   Returns [suggestion (str ''demnstrasi'') 11 21 (str ''sg-1700000000000-0''),
            suggestion (str ''Ini'') (1 / 2) (37 / 10) (str ''sg-1700000000000-1'')] \<and>
   (\<exists>a b. getp (suggestion (str ''Ini'') (1 / 2) (37 / 10) (str ''sg-1700000000000-1''))
              (str ''start'') = JNum (Finite a) \<and>
          getp (suggestion (str ''Ini'') (1 / 2) (37 / 10) (str ''sg-1700000000000-1''))
              (str ''end'') = JNum (Finite b) \<and>
          getp (suggestion (str ''Ini'') (1 / 2) (37 / 10) (str ''sg-1700000000000-1''))
              (str ''before'') = JStr (slice (str ''Ini adalah demnstrasi'') a b)) \<and>
   slice (str ''Ini adalah demnstrasi'') (1 / 2) (37 / 10) = str ''Ini'' \<and>
   slice (str ''Ini adalah demnstrasi'') 11 21 = str ''demnstrasi''"
proof -
  let ?T = "str ''Ini adalah demnstrasi''"
  let ?f1 = "suggestion (str ''demnstrasi'') 11 21 (str ''sg-1700000000000-0'')"
  let ?f2 = "suggestion (str ''Ini'') (1 / 2) (37 / 10) (str ''sg-1700000000000-1'')"
  have r: "reconcile host0 clock0 ?T
       [JObj (candidate (str ''demnstrasi'') 99 109),
        JObj (candidate (str ''Ini'') (1 / 2) (37 / 10))] = Returns [?f1, ?f2]"
    by (simp add: eval_defs)
  have "\<exists>a b. getp ?f2 (str ''start'') = JNum (Finite a) \<and>
      getp ?f2 (str ''end'') = JNum (Finite b) \<and>
      getp ?f2 (str ''before'') = JStr (slice ?T a b)"
    by (rule before_is_slice[OF r]) simp
  moreover have "slice ?T (1 / 2) (37 / 10) = str ''Ini''" "slice ?T 11 21 = str ''demnstrasi''"
    by (simp_all add: slice_def trunc_simps str_def)
  ultimately show ?thesis using r by (intro conjI)
qed

section \<open>Overlapping spans\<close>

lemma overlaps_iff: "overlaps taken s e \<longleftrightarrow> (\<exists>A \<in> set taken. span_overlap A (s, e))"
  by (simp add: overlaps_def list_ex_iff span_overlap_def case_prod_beta not_le)

lemma candidate_step_span:
  assumes "candidate_step env clock text taken i c = Returns (Some (sp, f))"
  shows "span_of f = Some sp" "\<not> overlaps taken (fst sp) (snd sp)"
proof -
  obtain a b where sp: "sp = (a, b)" by (cases sp)
  from candidate_step_Some[OF assms[unfolded sp]] obtain s t where
    o: "\<not> overlaps taken a b" and bf: "build_fixed env clock i s a b t = Returns f" by auto
  from build_fixed_span[OF bf] show "span_of f = Some sp" by (simp add: span_of_def sp)
  from o show "\<not> overlaps taken (fst sp) (snd sp)" by (simp add: sp)
qed

lemma candidate_step_taken:
  assumes "candidate_step env clock text [] i c = Returns (Some (sp, f))"
  shows "candidate_step env clock text taken i c =
    (if overlaps taken (fst sp) (snd sp) then Returns None else Returns (Some (sp, f)))"
  using assms
  by (auto simp: candidate_step_def overlaps_def
      split: jsval.splits if_splits outcome.splits option.splits)

lemma reconcile_loop_disjoint:
  assumes "reconcile env clock text cands = Returns res"
  shows "\<exists>taken. map span_of res = map Some taken \<and>
    sorted_wrt (\<lambda>A B. \<not> span_overlap A B) taken"
proof (rule reconcile_loop_invariant[OF assms[unfolded reconcile_def],
      where Inv = "\<lambda>taken out. map span_of out = map Some taken \<and>
        sorted_wrt (\<lambda>A B. \<not> span_overlap A B) taken"])
  show "map span_of [] = map Some [] \<and> sorted_wrt (\<lambda>A B. \<not> span_overlap A B) []" by simp
next
  fix taken out i c sp f
  assume inv: "map span_of out = map Some taken \<and>
      sorted_wrt (\<lambda>A B. \<not> span_overlap A B) taken"
    and cs: "candidate_step env clock text taken i c = Returns (Some (sp, f))"
  from candidate_step_span[OF cs] have sf: "span_of f = Some sp"
    and no: "\<forall>A \<in> set taken. \<not> span_overlap A sp"
    by (simp_all add: overlaps_iff)
  from inv sf no show "map span_of (out @ [f]) = map Some (taken @ [sp]) \<and>
      sorted_wrt (\<lambda>A B. \<not> span_overlap A B) (taken @ [sp])"
    by (simp add: sorted_wrt_append)
qed

text \<open>
  C2, as amended. No two suggestions of one output overlap under the half-open test. A
  candidate that would be accepted on its own is dropped when its span overlaps a span
  that is already taken, and nothing is merged; so of two overlapping candidates that
  make up the whole array, only the first survives.
\<close>

theorem accepted_spans_disjoint:
  "(reconcile env clock originalText cands = Returns res \<longrightarrow>
      (\<forall>i j. i < j \<and> j < length res \<longrightarrow>
         (\<exists>A B. span_of (res ! i) = Some A \<and> span_of (res ! j) = Some B \<and>
            \<not> span_overlap A B))) \<and>
   (candidate_step env clock originalText [] n c = Returns (Some (B, f)) \<and> A \<in> set taken \<and>
      span_overlap A B \<longrightarrow>
      candidate_step env clock originalText taken n c = Returns None) \<and>
   (candidate_step env clock originalText [] 0 c1 = Returns (Some (A1, f1)) \<and>
      candidate_step env clock originalText [] 1 c2 = Returns (Some (A2, f2)) \<and>
      span_overlap A1 A2 \<longrightarrow>
      reconcile env clock originalText [c1, c2] = Returns [f1])"
proof (intro conjI impI allI)
  fix i j
  assume r: "reconcile env clock originalText cands = Returns res" and ij: "i < j \<and> j < length res"
  from reconcile_loop_disjoint[OF r] obtain taken where
    m: "map span_of res = map Some taken" and
    s: "sorted_wrt (\<lambda>A B. \<not> span_overlap A B) taken" by auto
  from m have len: "length taken = length res" by (metis length_map)
  from m ij len have "span_of (res ! i) = Some (taken ! i)" "span_of (res ! j) = Some (taken ! j)"
    by (metis dual_order.strict_trans nth_map)+
  moreover from s ij len have "\<not> span_overlap (taken ! i) (taken ! j)"
    by (simp add: sorted_wrt_iff_nth_less)
  ultimately show "\<exists>A B. span_of (res ! i) = Some A \<and> span_of (res ! j) = Some B \<and>
      \<not> span_overlap A B" by simp
next
  assume h: "candidate_step env clock originalText [] n c = Returns (Some (B, f)) \<and> A \<in> set taken \<and>
      span_overlap A B"
  then have "overlaps taken (fst B) (snd B)" by (auto simp: overlaps_iff)
  with h candidate_step_taken[of env clock originalText n c B f taken]
  show "candidate_step env clock originalText taken n c = Returns None" by simp
next
  assume h: "candidate_step env clock originalText [] 0 c1 = Returns (Some (A1, f1)) \<and>
      candidate_step env clock originalText [] 1 c2 = Returns (Some (A2, f2)) \<and> span_overlap A1 A2"
  then have "overlaps [A1] (fst A2) (snd A2)" by (simp add: overlaps_iff)
  with h candidate_step_taken[of env clock originalText 1 c2 A2 f2 "[A1]"]
  have "candidate_step env clock originalText [A1] 1 c2 = Returns None" by simp
  with h show "reconcile env clock originalText [c1, c2] = Returns [f1]"
    by (simp add: reconcile_def)
qed


theorem accepted_spans_disjoint_witness:
  "reconcile host0 clock0 (str ''abcdefghij'')
     [JObj (candidate (str ''abcde'') 0 5), JObj (candidate (str ''efgh'') 4 8),
      JObj (candidate (str ''hij'') 7 10)] =
   Returns [suggestion (str ''abcde'') 0 5 (str ''sg-1700000000000-0''),
            suggestion (str ''hij'') 7 10 (str ''sg-1700000000000-2'')] \<and>
   (\<exists>A B. span_of (suggestion (str ''abcde'') 0 5 (str ''sg-1700000000000-0'')) = Some A \<and>
      span_of (suggestion (str ''hij'') 7 10 (str ''sg-1700000000000-2'')) = Some B \<and>
      \<not> span_overlap A B) \<and>
   candidate_step host0 clock0 (str ''abcdefghij'') [(0, 5)] 1
     (JObj (candidate (str ''efgh'') 4 8)) = Returns None \<and>
   reconcile host0 clock0 (str ''abcdefghij'')
     [JObj (candidate (str ''abcde'') 0 5), JObj (candidate (str ''efgh'') 4 8)] =
   Returns [suggestion (str ''abcde'') 0 5 (str ''sg-1700000000000-0'')]"
proof -
  let ?T = "str ''abcdefghij''"
  let ?A = "JObj (candidate (str ''abcde'') 0 5)"
  let ?B = "JObj (candidate (str ''efgh'') 4 8)"
  let ?C = "JObj (candidate (str ''hij'') 7 10)"
  let ?fA = "suggestion (str ''abcde'') 0 5 (str ''sg-1700000000000-0'')"
  let ?fB = "suggestion (str ''efgh'') 4 8 (str ''sg-1700000000000-1'')"
  let ?fC = "suggestion (str ''hij'') 7 10 (str ''sg-1700000000000-2'')"
  have r: "reconcile host0 clock0 ?T [?A, ?B, ?C] = Returns [?fA, ?fC]"
    by (simp add: eval_defs)
  have a: "candidate_step host0 clock0 ?T [] 0 ?A = Returns (Some ((0, 5), ?fA))"
    by (simp add: eval_defs)
  have b: "candidate_step host0 clock0 ?T [] 1 ?B = Returns (Some ((4, 8), ?fB))"
    by (simp add: eval_defs)
  have o: "span_overlap (0, 5) (4, 8 :: rat)"
    by (simp add: span_overlap_def)
  note t = accepted_spans_disjoint[where env = host0 and clock = clock0
      and originalText = ?T and cands = "[?A, ?B, ?C]" and res = "[?fA, ?fC]"
      and n = 1 and c = ?B and B = "(4, 8)" and f = ?fB and A = "(0, 5)"
      and taken = "[(0, 5)]" and ?c1.0 = ?A and ?A1.0 = "(0, 5)" and ?f1.0 = ?fA
      and ?c2.0 = ?B and ?A2.0 = "(4, 8)" and ?f2.0 = ?fB]
  from t r have "\<forall>i j. i < j \<and> j < length [?fA, ?fC] \<longrightarrow>
      (\<exists>A B. span_of ([?fA, ?fC] ! i) = Some A \<and> span_of ([?fA, ?fC] ! j) = Some B \<and>
        \<not> span_overlap A B)" by (rule_tac conjunct1[THEN mp])
  then have p1: "\<exists>A B. span_of ?fA = Some A \<and> span_of ?fC = Some B \<and> \<not> span_overlap A B"
    by (drule_tac x = 0 in spec, drule_tac x = 1 in spec) simp
  from t b o have p2: "candidate_step host0 clock0 ?T [(0, 5)] 1 ?B = Returns None"
    by simp
  from t a b o have p3: "reconcile host0 clock0 ?T [?A, ?B] = Returns [?fA]"
    by simp
  from r p1 p2 p3 show ?thesis by (intro conjI)
qed

theorem first_in_order_counterexample:
  "candidate_step host0 clock0 (str ''abcdefghij'') [] 1
     (JObj (candidate (str ''efgh'') 4 8)) =
     Returns (Some ((4, 8), suggestion (str ''efgh'') 4 8 (str ''sg-1700000000000-1''))) \<and>
   candidate_step host0 clock0 (str ''abcdefghij'') [] 2
     (JObj (candidate (str ''hij'') 7 10)) =
     Returns (Some ((7, 10), suggestion (str ''hij'') 7 10 (str ''sg-1700000000000-2''))) \<and>
   span_overlap (4, 8) (7, 10 :: rat) \<and>
   reconcile host0 clock0 (str ''abcdefghij'')
     [JObj (candidate (str ''abcde'') 0 5), JObj (candidate (str ''efgh'') 4 8),
      JObj (candidate (str ''hij'') 7 10)] =
   Returns [suggestion (str ''abcde'') 0 5 (str ''sg-1700000000000-0''),
            suggestion (str ''hij'') 7 10 (str ''sg-1700000000000-2'')] \<and>
   suggestion (str ''efgh'') 4 8 (str ''sg-1700000000000-1'') \<notin>
     set [suggestion (str ''abcde'') 0 5 (str ''sg-1700000000000-0''),
          suggestion (str ''hij'') 7 10 (str ''sg-1700000000000-2'')]"
  by (simp add: eval_defs span_overlap_def)

text \<open>
  Bounds that are not integers are compared as the numbers they are: \<open>[0, 2.5)\<close> and
  \<open>[2.5, 3)\<close> are both accepted, \<open>[0, 2.9)\<close> and \<open>[2.1, 3)\<close> are not, although they
  slice the same two strings.
\<close>

lemma fractional_spans:
  "reconcile host0 clock0 (str ''abc'')
     [JObj (candidate (str ''ab'') 0 (5 / 2)), JObj (candidate (str ''c'') (5 / 2) 3)] =
   Returns [suggestion (str ''ab'') 0 (5 / 2) (str ''sg-1700000000000-0''),
            suggestion (str ''c'') (5 / 2) 3 (str ''sg-1700000000000-1'')]"
  "reconcile host0 clock0 (str ''abc'')
     [JObj (candidate (str ''ab'') 0 (29 / 10)), JObj (candidate (str ''c'') (21 / 10) 3)] =
   Returns [suggestion (str ''ab'') 0 (29 / 10) (str ''sg-1700000000000-0'')]"
  by (simp_all add: eval_defs)

section \<open>The cap\<close>

lemma reconcile_loop_length:
  assumes "reconcile_loop env clock text i cs taken out = Returns res" "length out < 20"
  shows "length res \<le> 20"
  using assms
proof (induction cs arbitrary: i taken out)
  case Nil
  then show ?case by simp
next
  case (Cons c cs)
  show ?case
  proof (cases "candidate_step env clock text taken i c")
    case (Returns r)
    show ?thesis
    proof (cases r)
      case None
      with Returns Cons.prems(1)
      have "reconcile_loop env clock text (Suc i) cs taken out = Returns res" by simp
      from Cons.IH[OF this Cons.prems(2)] show ?thesis .
    next
      case (Some p)
      obtain sp f where p: "p = (sp, f)" by (cases p)
      show ?thesis
      proof (cases "20 \<le> length (out @ [f])")
        case True
        with Returns Some p Cons.prems(1) have "res = out @ [f]" by simp
        with Cons.prems(2) show ?thesis by simp
      next
        case False
        with Returns Some p Cons.prems(1)
        have "reconcile_loop env clock text (Suc i) cs (taken @ [sp]) (out @ [f]) = Returns res"
          by simp
        moreover from False have "length (out @ [f]) < 20" by simp
        ultimately show ?thesis by (rule Cons.IH)
      qed
    qed
  next
    case (Throws e)
    with Cons.prems(1) show ?thesis by simp
  next
    case Diverges
    with Cons.prems(1) show ?thesis by simp
  qed
qed

lemma reconcile_loop_all_accepted:
  assumes "length spans = length cs" "length fs = length cs"
    and "\<forall>j<length cs. candidate_step env clock text [] (i + j) (cs ! j) =
      Returns (Some (spans ! j, fs ! j))"
    and "\<forall>j<length cs. \<forall>A \<in> set taken. \<not> span_overlap A (spans ! j)"
    and "\<forall>j k. j < k \<and> k < length cs \<longrightarrow> \<not> span_overlap (spans ! j) (spans ! k)"
    and "length out < 20"
  shows "reconcile_loop env clock text i cs taken out = Returns (take 20 (out @ fs))"
  using assms
proof (induction cs arbitrary: i taken out spans fs)
  case Nil
  then show ?case by simp
next
  case (Cons c cs)
  from Cons.prems(1) obtain sp spans' where spans: "spans = sp # spans'"
    by (cases spans) auto
  from Cons.prems(2) obtain f fs' where fs: "fs = f # fs'"
    by (cases fs) auto
  from Cons.prems(3) have c0: "candidate_step env clock text [] i c = Returns (Some (sp, f))"
    by (auto simp: spans fs dest: spec[where x = 0])
  from Cons.prems(4) have "\<forall>A \<in> set taken. \<not> span_overlap A sp"
    by (auto simp: spans dest: spec[where x = 0])
  then have "\<not> overlaps taken (fst sp) (snd sp)" by (simp add: overlaps_iff)
  with candidate_step_taken[OF c0, of taken]
  have step: "candidate_step env clock text taken i c = Returns (Some (sp, f))" by simp
  show ?case
  proof (cases "20 \<le> length (out @ [f])")
    case True
    with Cons.prems(6) have "length out = 19" by simp
    then have "take 20 (out @ fs) = out @ [f]" by (simp add: fs)
    with step True show ?thesis by simp
  next
    case False
    have 1: "length spans' = length cs" using Cons.prems(1) spans by simp
    have 2: "length fs' = length cs" using Cons.prems(2) fs by simp
    have 3: "\<forall>j<length cs. candidate_step env clock text [] (Suc i + j) (cs ! j) =
        Returns (Some (spans' ! j, fs' ! j))"
    proof (intro allI impI)
      fix j assume "j < length cs"
      then have "Suc j < length (c # cs)" by simp
      with Cons.prems(3) have "candidate_step env clock text [] (i + Suc j) ((c # cs) ! Suc j) =
          Returns (Some (spans ! Suc j, fs ! Suc j))" by blast
      then show "candidate_step env clock text [] (Suc i + j) (cs ! j) =
          Returns (Some (spans' ! j, fs' ! j))" by (simp add: spans fs)
    qed
    have 4: "\<forall>j<length cs. \<forall>A \<in> set (taken @ [sp]). \<not> span_overlap A (spans' ! j)"
    proof (intro allI impI ballI)
      fix j A assume j: "j < length cs" and A: "A \<in> set (taken @ [sp])"
      then have sj: "Suc j < length (c # cs)" by simp
      show "\<not> span_overlap A (spans' ! j)"
      proof (cases "A \<in> set taken")
        case True
        with Cons.prems(4) sj have "\<not> span_overlap A (spans ! Suc j)" by blast
        then show ?thesis by (simp add: spans)
      next
        case False
        with A have "A = sp" by simp
        moreover from Cons.prems(5) sj have "\<not> span_overlap (spans ! 0) (spans ! Suc j)"
          by (metis zero_less_Suc)
        ultimately show ?thesis by (simp add: spans)
      qed
    qed
    have 5: "\<forall>j k. j < k \<and> k < length cs \<longrightarrow> \<not> span_overlap (spans' ! j) (spans' ! k)"
    proof (intro allI impI)
      fix j k assume "j < k \<and> k < length cs"
      then have "Suc j < Suc k \<and> Suc k < length (c # cs)" by simp
      with Cons.prems(5) have "\<not> span_overlap (spans ! Suc j) (spans ! Suc k)" by blast
      then show "\<not> span_overlap (spans' ! j) (spans' ! k)" by (simp add: spans)
    qed
    from False have 6: "length (out @ [f]) < 20" by simp
    from Cons.IH[OF 1 2 3 4 5 6] step False show ?thesis by (simp add: fs)
  qed
qed

text \<open>
  C6. The output never holds more than 20 suggestions. When every candidate is one that
  is accepted on its own and no two of their spans overlap, the output is the first 20
  of them in the order of the array: of 25 such candidates the last 5 are dropped by
  the cap alone.
\<close>

theorem at_most_twenty:
  "(reconcile env clock originalText cands = Returns res \<longrightarrow> length res \<le> 20) \<and>
   (length spans = length cands \<and> length fs = length cands \<and>
    (\<forall>j<length cands. candidate_step env clock originalText [] j (cands ! j) =
       Returns (Some (spans ! j, fs ! j))) \<and>
    (\<forall>j k. j < k \<and> k < length cands \<longrightarrow> \<not> span_overlap (spans ! j) (spans ! k)) \<longrightarrow>
    reconcile env clock originalText cands = Returns (take 20 fs))"
proof (intro conjI impI)
  assume "reconcile env clock originalText cands = Returns res"
  then show "length res \<le> 20"
    unfolding reconcile_def by (rule reconcile_loop_length) simp
next
  assume h: "length spans = length cands \<and> length fs = length cands \<and>
    (\<forall>j<length cands. candidate_step env clock originalText [] j (cands ! j) =
       Returns (Some (spans ! j, fs ! j))) \<and>
    (\<forall>j k. j < k \<and> k < length cands \<longrightarrow> \<not> span_overlap (spans ! j) (spans ! k))"
  have "reconcile_loop env clock originalText 0 cands [] [] = Returns (take 20 ([] @ fs))"
    by (rule reconcile_loop_all_accepted[where spans = spans]) (use h in simp_all)
  then show "reconcile env clock originalText cands = Returns (take 20 fs)"
    by (simp add: reconcile_def)
qed


lemma slice_single: "k < length text \<Longrightarrow> slice text (of_nat k) (of_nat k + 1) = [text ! k]"
proof -
  assume k: "k < length text"
  have t: "trunc (of_nat k + 1) = int k + 1"
    using trunc_simps(4)[of "int k + 1"] by simp
  show ?thesis
    using k
    by (simp add: slice_def Let_def trunc_simps(5) t take_Suc_conv_app_nth min_def
        hd_drop_conv_nth take_Suc Cons_nth_drop_Suc[symmetric])
qed

lemma sanitize_examples:
  "sanitizeString (str ''salah ketik'') 200 = str ''salah ketik''"
  "sanitizeString (str ''x'') 100 = str ''x''"
  by (simp_all add: sanitizeString_def str_def is_control_def is_space_def trim_def Let_def)

lemma single_unit_step:
  assumes "k < length text"
  shows "candidate_step env clock text [] k (JObj (candidate [text ! k] (of_nat k) (of_nat k + 1))) =
    Returns (Some ((of_nat k, of_nat k + 1),
      suggestion [text ! k] (of_nat k) (of_nat k + 1) (synth_id (clock k) k)))"
proof -
  have key: "str ''id'' \<noteq> str ''category''" "str ''id'' \<noteq> str ''message''"
    "str ''id'' \<noteq> str ''before''" "str ''id'' \<noteq> str ''after''"
    "str ''id'' \<noteq> str ''start''" "str ''id'' \<noteq> str ''end''"
    "str ''severity'' \<noteq> str ''category''" "str ''severity'' \<noteq> str ''message''"
    "str ''severity'' \<noteq> str ''before''" "str ''severity'' \<noteq> str ''after''"
    "str ''severity'' \<noteq> str ''start''" "str ''severity'' \<noteq> str ''end''"
    by simp_all
  show ?thesis
    using assms
    by (simp add: candidate_step_def basicSuggestionShapeValid_def category_ok_def
        severity_ok_def locate_def clamp_bounds_def clamp_def getp_def candidate_def suggestion_def
        slice_single overlaps_def build_fixed_def after_string_def sanitize_examples
        Let_def)
qed

theorem at_most_twenty_witness:
  "length cands25 = 25 \<and>
   reconcile host0 clock0 text25 cands25 = Returns (take 20 accepted25) \<and>
   length (take 20 accepted25) = 20 \<and>
   length (take 20 accepted25) \<le> 20"
proof -
  have len: "length text25 = 25" by (simp add: text25_def str_def)
  have l1: "length spans25 = length cands25" by (simp add: spans25_def cands25_def)
  have l2: "length accepted25 = length cands25" by (simp add: accepted25_def cands25_def)
  have st: "\<forall>j<length cands25. candidate_step host0 clock0 text25 [] j (cands25 ! j) =
      Returns (Some (spans25 ! j, accepted25 ! j))"
  proof (intro allI impI)
    fix j assume "j < length cands25"
    then have j: "j < 25" by (simp add: cands25_def)
    then have "j < length text25" by (simp add: len)
    from single_unit_step[OF this, of host0 clock0] j
    show "candidate_step host0 clock0 text25 [] j (cands25 ! j) =
      Returns (Some (spans25 ! j, accepted25 ! j))"
      by (simp add: cands25_def spans25_def accepted25_def)
  qed
  have no: "\<forall>j k. j < k \<and> k < length cands25 \<longrightarrow> \<not> span_overlap (spans25 ! j) (spans25 ! k)"
    by (auto simp: cands25_def spans25_def span_overlap_def)
  note t = at_most_twenty[where env = host0 and clock = clock0 and originalText = text25
      and cands = cands25 and spans = spans25 and fs = accepted25
      and res = "take 20 accepted25"]
  from t l1 l2 st no
  have r: "reconcile host0 clock0 text25 cands25 = Returns (take 20 accepted25)"
    by (rule_tac conjunct2[THEN mp]) simp_all
  with t have le: "length (take 20 accepted25) \<le> 20"
    by (rule_tac conjunct1[THEN mp])
  have "length cands25 = 25" by (simp add: cands25_def)
  moreover have "length (take 20 accepted25) = 20" by (simp add: accepted25_def)
  ultimately show ?thesis using r le by (intro conjI)
qed

section \<open>The clock\<close>

lemma build_fixed_clock:
  "map_outcome (AList.delete (str ''id'')) (build_fixed env clock i s a b t) =
   map_outcome (AList.delete (str ''id'')) (build_fixed env clock' i s a b t)"
  by (simp add: build_fixed_def map_outcome_def Let_def delete_update_same
      split: option.splits)

lemma build_fixed_with_id:
  "truthy (getp s (str ''id'')) \<Longrightarrow>
    build_fixed env clock i s a b t = build_fixed env clock' i s a b t"
  by (simp add: build_fixed_def Let_def getp_update split: option.splits)

lemma candidate_step_clock:
  "map_outcome drop_id (candidate_step env clock text taken i c) =
   map_outcome drop_id (candidate_step env clock' text taken i c)"
proof (cases c)
  case (JObj s)
  show ?thesis
  proof (cases "locate env text s")
    case (Returns r)
    show ?thesis
    proof (cases r)
      case None
      with Returns JObj show ?thesis by (simp add: candidate_step_def)
    next
      case (Some p)
      obtain a b t where p: "p = (a, b, t)" by (cases p)
      from build_fixed_clock[of env clock i s a b t clock'] Returns Some p JObj
      show ?thesis
        by (auto simp: candidate_step_def map_outcome_def drop_id_def split: outcome.splits)
    qed
  qed (simp_all add: candidate_step_def JObj)
qed (simp_all add: candidate_step_def basicSuggestionShapeValid_def)


lemma candidate_step_clock_cases:
  obtains
    (throws) e where "candidate_step env clock text taken i c = Throws e"
      "candidate_step env clock' text taken i c = Throws e"
  | (diverges) "candidate_step env clock text taken i c = Diverges"
      "candidate_step env clock' text taken i c = Diverges"
  | (skipped) "candidate_step env clock text taken i c = Returns None"
      "candidate_step env clock' text taken i c = Returns None"
  | (accepted) sp f f' where "candidate_step env clock text taken i c = Returns (Some (sp, f))"
      "candidate_step env clock' text taken i c = Returns (Some (sp, f'))"
      "AList.delete (str ''id'') f = AList.delete (str ''id'') f'"
proof -
  note eq = candidate_step_clock[of env clock "text" taken i c clock']
  show thesis
  proof (cases "candidate_step env clock text taken i c")
    case (Throws e)
    with eq have "candidate_step env clock' text taken i c = Throws e"
      by (cases "candidate_step env clock' text taken i c") (simp_all add: map_outcome_def)
    with Throws show thesis by (rule throws)
  next
    case Diverges
    with eq have "candidate_step env clock' text taken i c = Diverges"
      by (cases "candidate_step env clock' text taken i c") (simp_all add: map_outcome_def)
    with Diverges show thesis by (rule diverges)
  next
    case (Returns r)
    with eq obtain r' where r': "candidate_step env clock' text taken i c = Returns r'"
      and d: "drop_id r = drop_id r'"
      by (cases "candidate_step env clock' text taken i c") (simp_all add: map_outcome_def)
    show thesis
    proof (cases r)
      case None
      with d have "r' = None" by (simp add: drop_id_def)
      with Returns r' None show thesis by (simp add: skipped)
    next
      case (Some p)
      obtain sp f where p: "p = (sp, f)" by (cases p)
      from d Some p obtain f' where "r' = Some (sp, f')"
        "AList.delete (str ''id'') f = AList.delete (str ''id'') f'"
        by (cases r') (auto simp: drop_id_def)
      with Returns r' Some p show thesis by (simp add: accepted)
    qed
  qed
qed

lemma reconcile_loop_clock:
  assumes "map (AList.delete (str ''id'')) out = map (AList.delete (str ''id'')) out'"
  shows "map_outcome (map (AList.delete (str ''id'')))
      (reconcile_loop env clock text i cs taken out) =
    map_outcome (map (AList.delete (str ''id'')))
      (reconcile_loop env clock' text i cs taken out')"
  using assms
proof (induction cs arbitrary: i taken out out')
  case Nil
  then show ?case by (simp add: map_outcome_def)
next
  case (Cons c cs)
  from Cons.prems have len: "length out = length out'" by (metis length_map)
  show ?case
  proof (cases rule: candidate_step_clock_cases[of env clock "text" taken i c clock'])
    case (throws e)
    then show ?thesis by (simp add: map_outcome_def)
  next
    case diverges
    then show ?thesis by (simp add: map_outcome_def)
  next
    case skipped
    with Cons.IH[OF Cons.prems] show ?thesis by simp
  next
    case (accepted sp f f')
    from Cons.prems accepted(3)
    have m: "map (AList.delete (str ''id'')) (out @ [f]) =
        map (AList.delete (str ''id'')) (out' @ [f'])" by simp
    show ?thesis
    proof (cases "20 \<le> length (out @ [f])")
      case True
      with accepted m len show ?thesis by (simp add: map_outcome_def)
    next
      case False
      with accepted len Cons.IH[OF m] show ?thesis by simp
    qed
  qed
qed

lemma candidate_step_with_id:
  assumes "\<And>s. c = JObj s \<Longrightarrow> truthy (getp s (str ''id''))"
  shows "candidate_step env clock text taken i c = candidate_step env clock' text taken i c"
proof (cases c)
  case (JObj s)
  with assms have "truthy (getp s (str ''id''))" by simp
  from build_fixed_with_id[OF this, of env clock i _ _ _ clock'] JObj show ?thesis
    by (simp add: candidate_step_def split: outcome.splits option.splits prod.splits)
qed (simp_all add: candidate_step_def basicSuggestionShapeValid_def)

lemma reconcile_loop_with_ids:
  assumes "\<forall>s. JObj s \<in> set cs \<longrightarrow> truthy (getp s (str ''id''))"
  shows "reconcile_loop env clock text i cs taken out =
    reconcile_loop env clock' text i cs taken out"
  using assms
proof (induction cs arbitrary: i taken out)
  case Nil
  then show ?case by simp
next
  case (Cons c cs)
  have "candidate_step env clock text taken i c = candidate_step env clock' text taken i c"
    by (rule candidate_step_with_id) (use Cons.prems in simp)
  moreover have "\<forall>s. JObj s \<in> set cs \<longrightarrow> truthy (getp s (str ''id''))"
    using Cons.prems by simp
  ultimately show ?case
    using Cons.IH by (simp split: outcome.splits option.splits prod.splits)
qed

text \<open>
  C7, as amended. The loop keeps no state of its own, and its result depends on the
  candidates, the text and the clock: two runs on the same candidates and the same text
  produce arrays that are identical once the \<open>id\<close> fields are left out, and identical
  altogether when every candidate carries an id of its own. An id that the loop makes
  embeds \<open>Date.now()\<close>.
\<close>

theorem clock_shows_only_in_ids:
  "map_outcome (map (AList.delete (str ''id''))) (reconcile env clock originalText cands) =
   map_outcome (map (AList.delete (str ''id''))) (reconcile env clock' originalText cands) \<and>
   ((\<forall>s. JObj s \<in> set cands \<longrightarrow> truthy (getp s (str ''id''))) \<longrightarrow>
      reconcile env clock originalText cands = reconcile env clock' originalText cands)"
proof (intro conjI impI)
  show "map_outcome (map (AList.delete (str ''id''))) (reconcile env clock originalText cands) =
   map_outcome (map (AList.delete (str ''id''))) (reconcile env clock' originalText cands)"
    unfolding reconcile_def by (rule reconcile_loop_clock) simp
next
  assume "\<forall>s. JObj s \<in> set cands \<longrightarrow> truthy (getp s (str ''id''))"
  then show "reconcile env clock originalText cands = reconcile env clock' originalText cands"
    unfolding reconcile_def by (rule reconcile_loop_with_ids)
qed

theorem clock_shows_only_in_ids_witness:
  "map_outcome (map (AList.delete (str ''id'')))
     (reconcile host0 clock0 (str ''Sya mkn ayam'') [JObj (candidate (str ''Sya'') 0 3)]) =
   map_outcome (map (AList.delete (str ''id'')))
     (reconcile host0 clock1 (str ''Sya mkn ayam'') [JObj (candidate (str ''Sya'') 0 3)]) \<and>
   reconcile host0 clock0 (str ''Sya mkn ayam'')
     [JObj ((str ''id'', JStr (str ''s1'')) # candidate (str ''Sya'') 0 3)] =
   reconcile host0 clock1 (str ''Sya mkn ayam'')
     [JObj ((str ''id'', JStr (str ''s1'')) # candidate (str ''Sya'') 0 3)]"
proof -
  have h: "\<forall>s. JObj s \<in> set [JObj ((str ''id'', JStr (str ''s1'')) # candidate (str ''Sya'') 0 3)]
      \<longrightarrow> truthy (getp s (str ''id''))"
    by (simp add: getp_def str_def)
  from clock_shows_only_in_ids[where env = host0 and clock = clock0 and clock' = clock1
      and originalText = "str ''Sya mkn ayam''"
      and cands = "[JObj (candidate (str ''Sya'') 0 3)]"]
  have 1: "map_outcome (map (AList.delete (str ''id'')))
     (reconcile host0 clock0 (str ''Sya mkn ayam'') [JObj (candidate (str ''Sya'') 0 3)]) =
   map_outcome (map (AList.delete (str ''id'')))
     (reconcile host0 clock1 (str ''Sya mkn ayam'') [JObj (candidate (str ''Sya'') 0 3)])"
    by (rule conjunct1)
  from clock_shows_only_in_ids[where env = host0 and clock = clock0 and clock' = clock1
      and originalText = "str ''Sya mkn ayam''"
      and cands = "[JObj ((str ''id'', JStr (str ''s1'')) # candidate (str ''Sya'') 0 3)]"] h
  have 2: "reconcile host0 clock0 (str ''Sya mkn ayam'')
     [JObj ((str ''id'', JStr (str ''s1'')) # candidate (str ''Sya'') 0 3)] =
   reconcile host0 clock1 (str ''Sya mkn ayam'')
     [JObj ((str ''id'', JStr (str ''s1'')) # candidate (str ''Sya'') 0 3)]"
    by (rule_tac conjunct2[THEN mp])
  from 1 2 show ?thesis by (rule conjI)
qed

theorem same_inputs_counterexample:
  "reconcile host0 clock0 (str ''Sya mkn ayam'') [JObj (candidate (str ''Sya'') 0 3)] \<noteq>
   reconcile host0 clock1 (str ''Sya mkn ayam'') [JObj (candidate (str ''Sya'') 0 3)]"
  by (simp add: eval_defs)

section \<open>Admission by the local limiter\<close>

lemma check_allowed_iff:
  "fst (checkRateLimitInMemory now cid store) \<longleftrightarrow>
    length (in_window now (recorded store cid)) < maxRequests"
  by (auto simp: checkRateLimitInMemory_def recorded_def in_window_def Let_def)

lemma check_store:
  "snd (checkRateLimitInMemory now cid store) =
    (if fst (checkRateLimitInMemory now cid store)
     then store(cid \<mapsto> in_window now (recorded store cid) @ [now]) else store)"
  by (auto simp: checkRateLimitInMemory_def recorded_def in_window_def Let_def)

lemma calls_Cons:
  "calls cid (t # ts) store =
    (fst (checkRateLimitInMemory t cid store) #
       fst (calls cid ts (snd (checkRateLimitInMemory t cid store))),
     snd (calls cid ts (snd (checkRateLimitInMemory t cid store))))"
  by (simp split: prod.splits)

lemma calls_within_window:
  assumes "sorted (recorded store cid @ ts)"
    and "ts \<noteq> [] \<longrightarrow> last ts - hd (recorded store cid @ ts) < windowMs"
    and "length (recorded store cid) + length ts \<le> maxRequests"
  shows "fst (calls cid ts store) = replicate (length ts) True \<and>
    recorded (snd (calls cid ts store)) cid = recorded store cid @ ts"
  using assms
proof (induction ts arbitrary: store)
  case Nil
  then show ?case by simp
next
  case (Cons t ts)
  let ?rs = "recorded store cid"
  have all_in: "\<forall>x \<in> set ?rs. t - x < windowMs"
  proof
    fix x assume x: "x \<in> set ?rs"
    then have "?rs \<noteq> []" by auto
    then have hd: "hd (?rs @ t # ts) = hd ?rs" by simp
    from Cons.prems(1) x \<open>?rs \<noteq> []\<close> have "hd ?rs \<le> x"
      by (cases ?rs) (auto simp: sorted_append)
    moreover from Cons.prems(1) have "t \<le> last (t # ts)"
      by (cases ts) (auto simp: sorted_append)
    moreover from Cons.prems(2) hd have "last (t # ts) - hd ?rs < windowMs" by simp
    ultimately show "t - x < windowMs" by linarith
  qed
  then have iw: "in_window t ?rs = ?rs" by (simp add: in_window_def)
  from Cons.prems(3) have "length ?rs < maxRequests" by simp
  with iw have ok: "fst (checkRateLimitInMemory t cid store)" by (simp add: check_allowed_iff)
  define store' where "store' = snd (checkRateLimitInMemory t cid store)"
  from ok iw have st: "store' = store(cid \<mapsto> ?rs @ [t])"
    by (simp add: store'_def check_store)
  then have rec': "recorded store' cid = ?rs @ [t]" by (simp add: recorded_def)
  have 1: "sorted (recorded store' cid @ ts)" using Cons.prems(1) by (simp add: rec')
  have 2: "ts \<noteq> [] \<longrightarrow> last ts - hd (recorded store' cid @ ts) < windowMs"
  proof
    assume ne: "ts \<noteq> []"
    have "hd (recorded store' cid @ ts) = hd (?rs @ t # ts)" by (cases ?rs) (simp_all add: rec')
    with Cons.prems(2) ne show "last ts - hd (recorded store' cid @ ts) < windowMs" by simp
  qed
  have 3: "length (recorded store' cid) + length ts \<le> maxRequests"
    using Cons.prems(3) by (simp add: rec')
  from Cons.IH[OF 1 2 3] ok rec'
  show ?case
    unfolding calls_Cons store'_def[symmetric] by simp
qed


lemma calls_append:
  "calls cid (xs @ ys) store =
    (fst (calls cid xs store) @ fst (calls cid ys (snd (calls cid xs store))),
     snd (calls cid ys (snd (calls cid xs store))))"
  by (induction xs arbitrary: store) (simp_all add: calls_Cons del: calls.simps(2))

lemma ten_then_reject_then_allow:
  assumes e: "recorded store cid = []" and l: "length ts = 10"
    and s: "sorted (ts @ [t11, t12])"
    and w: "t11 - hd ts < windowMs" and el: "windowMs \<le> t12 - hd ts"
  shows "fst (calls cid (ts @ [t11, t12]) store) = replicate 10 True @ [False, True]"
proof -
  from l have ne: "ts \<noteq> []" by auto
  from s have sts: "sorted ts" and le11: "\<forall>x \<in> set ts. x \<le> t11"
    by (auto simp: sorted_append)
  from sts ne have hd_le: "\<forall>x \<in> set ts. hd ts \<le> x"
    by (cases ts) auto
  have "last ts \<le> t11" using le11 ne by simp
  with w have "last ts - hd ts < windowMs" by linarith
  with calls_within_window[of store cid ts] e l sts ne
  have first: "fst (calls cid ts store) = replicate 10 True"
    and rec: "recorded (snd (calls cid ts store)) cid = ts"
    by (simp_all add: maxRequests_def)
  define st where "st = snd (calls cid ts store)"
  have "\<forall>x \<in> set ts. t11 - x < windowMs" using hd_le w by fastforce
  then have "in_window t11 (recorded st cid) = ts" using rec by (simp add: in_window_def st_def)
  then have rej: "\<not> fst (checkRateLimitInMemory t11 cid st)"
    and same: "snd (checkRateLimitInMemory t11 cid st) = st"
    using l by (simp_all add: check_allowed_iff check_store maxRequests_def)
  have "hd ts \<in> set ts" using ne by simp
  moreover have "\<not> t12 - hd ts < windowMs" using el by simp
  ultimately have "length (in_window t12 ts) < length ts"
    unfolding in_window_def by (rule length_filter_less)
  then have ok: "fst (checkRateLimitInMemory t12 cid st)"
    using l rec by (simp add: check_allowed_iff maxRequests_def st_def)
  show ?thesis
    using first rej same ok by (simp add: calls_append calls_Cons st_def del: calls.simps(2))
qed

text \<open>
  C8. With \<open>maxRequests = 10\<close> and \<open>windowMs = 60000\<close>, a call of the local limiter is
  allowed exactly when fewer than 10 of the times recorded for the client lie within the
  trailing window, and the store changes only when the call is allowed: it then holds
  those times followed by the new one. So for a client with nothing recorded, 10 calls
  and an 11th, all less than a window after the first, are answered by 10 times yes and
  a no; a later call, a window or more after the first, is allowed again.
\<close>

theorem sliding_window_admission:
  "maxRequests = 10 \<and> windowMs = 60000 \<and>
   (fst (checkRateLimitInMemory now clientId store) \<longleftrightarrow>
      length (in_window now (recorded store clientId)) < 10) \<and>
   snd (checkRateLimitInMemory now clientId store) =
     (if fst (checkRateLimitInMemory now clientId store)
      then store(clientId \<mapsto> in_window now (recorded store clientId) @ [now])
      else store) \<and>
   (recorded store clientId = [] \<and> length ts = 10 \<and> sorted (ts @ [t11, t12]) \<and>
      t11 - hd ts < 60000 \<and> 60000 \<le> t12 - hd ts \<longrightarrow>
      fst (calls clientId (ts @ [t11, t12]) store) = replicate 10 True @ [False, True])"
proof (intro conjI impI)
  show "maxRequests = 10" by (simp add: maxRequests_def)
  show "windowMs = 60000" by (simp add: windowMs_def)
  show "fst (checkRateLimitInMemory now clientId store) \<longleftrightarrow>
      length (in_window now (recorded store clientId)) < 10"
    by (simp add: check_allowed_iff maxRequests_def)
  show "snd (checkRateLimitInMemory now clientId store) =
     (if fst (checkRateLimitInMemory now clientId store)
      then store(clientId \<mapsto> in_window now (recorded store clientId) @ [now])
      else store)"
    by (rule check_store)
next
  assume "recorded store clientId = [] \<and> length ts = 10 \<and> sorted (ts @ [t11, t12]) \<and>
      t11 - hd ts < 60000 \<and> 60000 \<le> t12 - hd ts"
  then show "fst (calls clientId (ts @ [t11, t12]) store) = replicate 10 True @ [False, True]"
    by (intro ten_then_reject_then_allow) (simp_all add: windowMs_def)
qed

theorem sliding_window_admission_witness:
  "fst (calls (str ''10.0.0.7'') ([0, 1, 2, 3, 4, 5, 6, 7, 8, 9] @ [10, 60000]) Map.empty) =
     replicate 10 True @ [False, True] \<and>
   fst (checkRateLimitInMemory 5 (str ''10.0.0.7'') Map.empty) \<and>
   snd (checkRateLimitInMemory 5 (str ''10.0.0.7'') Map.empty) =
     Map.empty(str ''10.0.0.7'' \<mapsto> [5])"
proof -
  note t = sliding_window_admission[where now = 5 and clientId = "str ''10.0.0.7''"
      and store = Map.empty and ts = "[0, 1, 2, 3, 4, 5, 6, 7, 8, 9]" and ?t11.0 = 10
      and ?t12.0 = 60000]
  have h: "recorded Map.empty (str ''10.0.0.7'') = [] \<and>
      length [0, 1, 2, 3, 4, 5, 6, 7, 8, 9 :: int] = 10 \<and>
      sorted ([0, 1, 2, 3, 4, 5, 6, 7, 8, 9] @ [10, 60000 :: int]) \<and>
      10 - hd [0, 1, 2, 3, 4, 5, 6, 7, 8, 9 :: int] < 60000 \<and>
      60000 \<le> 60000 - hd [0, 1, 2, 3, 4, 5, 6, 7, 8, 9 :: int]"
    by (simp add: recorded_def)
  have 1: "fst (calls (str ''10.0.0.7'') ([0, 1, 2, 3, 4, 5, 6, 7, 8, 9] @ [10, 60000])
      Map.empty) = replicate 10 True @ [False, True]"
    by (rule mp[OF t[THEN conjunct2, THEN conjunct2, THEN conjunct2, THEN conjunct2] h])
  have 2: "fst (checkRateLimitInMemory 5 (str ''10.0.0.7'') Map.empty)"
    using t[THEN conjunct2, THEN conjunct2, THEN conjunct1]
    by (simp add: in_window_def recorded_def)
  have 3: "snd (checkRateLimitInMemory 5 (str ''10.0.0.7'') Map.empty) =
     Map.empty(str ''10.0.0.7'' \<mapsto> [5])"
    using t[THEN conjunct2, THEN conjunct2, THEN conjunct2, THEN conjunct1] 2
    by (simp add: in_window_def recorded_def)
  from 1 2 3 show ?thesis by (intro conjI)
qed


section \<open>The nearest occurrence\<close>

lemma nearest_loop_first_minimum:
  assumes "r = nearest_loop a xs best \<bar>of_int best - a\<bar>"
  shows "\<exists>pre post. best # xs = pre @ r # post \<and>
     (\<forall>x \<in> set pre. \<bar>of_int r - a\<bar> < \<bar>of_int x - a\<bar>) \<and> (\<forall>x \<in> set post. \<bar>of_int r - a\<bar> \<le> \<bar>of_int x - a\<bar>)"
  using assms
proof (induction xs arbitrary: best)
  case Nil
  then have "r = best" by simp
  then show ?case by (intro exI[of _ "[]"]) simp
next
  case (Cons x xs)
  show ?case
  proof (cases "\<bar>of_int x - a\<bar> < \<bar>of_int best - a\<bar>")
    case True
    with Cons.prems have "r = nearest_loop a xs x \<bar>of_int x - a\<bar>" by (simp add: Let_def)
    from Cons.IH[OF this] obtain pre post where
      e: "x # xs = pre @ r # post" and
      p: "\<forall>y \<in> set pre. \<bar>of_int r - a\<bar> < \<bar>of_int y - a\<bar>" and
      q: "\<forall>y \<in> set post. \<bar>of_int r - a\<bar> \<le> \<bar>of_int y - a\<bar>" by blast
    have rx: "\<bar>of_int r - a\<bar> \<le> \<bar>of_int x - a\<bar>"
    proof (cases pre)
      case Nil
      with e show ?thesis by simp
    next
      case (Cons y ys)
      with e have "x \<in> set pre" by simp
      with p have "\<bar>of_int r - a\<bar> < \<bar>of_int x - a\<bar>" by (rule_tac bspec)
      then show ?thesis by simp
    qed
    from rx True have "\<bar>of_int r - a\<bar> < \<bar>of_int best - a\<bar>" by linarith
    with e p q show ?thesis
      by (intro exI[of _ "best # pre"] exI[of _ post]) simp
  next
    case False
    with Cons.prems have "r = nearest_loop a xs best \<bar>of_int best - a\<bar>" by (simp add: Let_def)
    from Cons.IH[OF this] obtain pre post where
      e: "best # xs = pre @ r # post" and
      p: "\<forall>y \<in> set pre. \<bar>of_int r - a\<bar> < \<bar>of_int y - a\<bar>" and
      q: "\<forall>y \<in> set post. \<bar>of_int r - a\<bar> \<le> \<bar>of_int y - a\<bar>" by blast
    show ?thesis
    proof (cases pre)
      case Nil
      with e have b: "best = r" and xs: "xs = post" by simp_all
      from False b have "\<bar>of_int r - a\<bar> \<le> \<bar>of_int x - a\<bar>" by simp
      with b xs q show ?thesis
        by (intro exI[of _ "[]"] exI[of _ "x # post"]) simp
    next
      case (Cons y ys)
      with e have y: "y = best" and xs: "xs = ys @ r # post" by simp_all
      from p Cons y have "\<bar>of_int r - a\<bar> < \<bar>of_int best - a\<bar>" by simp
      with False have "\<bar>of_int r - a\<bar> < \<bar>of_int x - a\<bar>" by linarith
      with xs p q Cons y show ?thesis
        by (intro exI[of _ "best # x # ys"] exI[of _ post]) simp
    qed
  qed
qed

lemma matches_occurs: "n \<noteq> [] \<Longrightarrow> matches_at h n k \<longleftrightarrow> occurs_at h n k"
proof
  assume n: "n \<noteq> []" and m: "matches_at h n k"
  then have "length (take (length n) (drop k h)) = length n" by (simp add: matches_at_def)
  then have "length n \<le> length h - k" by simp
  with n have "k + length n \<le> length h" by (cases n) auto
  with m show "occurs_at h n k" by (simp add: occurs_at_def matches_at_def)
next
  assume "occurs_at h n k"
  then show "matches_at h n k" by (simp add: occurs_at_def matches_at_def)
qed

lemma set_occurrences_from:
  assumes "n \<noteq> []"
  shows "set (occurrences_from h n 0) = int ` {k. occurs_at h n k}"
proof -
  have lt: "occurs_at h n k \<Longrightarrow> k < Suc (length h)" for k by (simp add: occurs_at_def)
  have "set (occurrences_from h n 0) = int ` {k. k < Suc (length h) \<and> matches_at h n k}"
    unfolding occurrences_from_def by (auto simp del: upt_Suc)
  also have "{k. k < Suc (length h) \<and> matches_at h n k} = {k. occurs_at h n k}"
    using assms lt by (auto simp: matches_occurs)
  finally show ?thesis .
qed

lemma sorted_occurrences_from: "sorted_wrt (<) (occurrences_from h n k)"
  unfolding occurrences_from_def
  by (simp add: sorted_wrt_map sorted_wrt_filter strict_sorted_iff[symmetric] del: upt_Suc)

lemma occurs_slice:
  "occurs_at h n k \<Longrightarrow> slice h (of_nat k) (of_nat k + of_nat (length n)) = n"
proof -
  assume o: "occurs_at h n k"
  have t: "trunc (of_nat k + of_nat (length n)) = int k + int (length n)"
    using trunc_simps(4)[of "int k + int (length n)"] by simp
  show ?thesis
    using o by (simp add: occurs_at_def slice_def Let_def min_def trunc_simps(5) t)
qed

lemma pick_nearest_spec:
  assumes "sorted_wrt (<) occs" "occs \<noteq> []"
  shows "pick_nearest occs a \<in> set occs \<and>
    (\<forall>x \<in> set occs. \<bar>of_int (pick_nearest occs a) - a\<bar> \<le> \<bar>of_int x - a\<bar> \<and>
       (\<bar>of_int x - a\<bar> = \<bar>of_int (pick_nearest occs a) - a\<bar> \<longrightarrow> pick_nearest occs a \<le> x))"
proof -
  from assms(2) obtain first rest where o: "occs = first # rest" by (cases occs) auto
  let ?r = "nearest_loop a rest first \<bar>of_int first - a\<bar>"
  have pr: "pick_nearest occs a = ?r" by (simp add: pick_nearest_def o)
  from nearest_loop_first_minimum[of ?r a rest first] obtain pre post where
    e: "first # rest = pre @ ?r # post" and
    p: "\<forall>y \<in> set pre. \<bar>of_int ?r - a\<bar> < \<bar>of_int y - a\<bar>" and
    q: "\<forall>y \<in> set post. \<bar>of_int ?r - a\<bar> \<le> \<bar>of_int y - a\<bar>" by blast
  from assms(1) o e have "sorted_wrt (<) (pre @ ?r # post)" by simp
  then have gt: "\<forall>y \<in> set post. ?r < y" by (simp add: sorted_wrt_append)
  have mem: "?r \<in> set occs" using o e by (metis in_set_conv_decomp)
  have "\<bar>of_int ?r - a\<bar> \<le> \<bar>of_int x - a\<bar> \<and> (\<bar>of_int x - a\<bar> = \<bar>of_int ?r - a\<bar> \<longrightarrow> ?r \<le> x)" if "x \<in> set occs" for x
  proof -
    from that o e have "x \<in> set pre \<or> x = ?r \<or> x \<in> set post"
      by (metis Un_iff set_ConsD set_append)
    then show ?thesis using p q gt by fastforce
  qed
  with mem show ?thesis unfolding pr by simp
qed

lemma findNearestIndex_string:
  assumes "b \<noteq> []"
  shows "findNearestIndex env h (JStr b) a = Returns (pick_nearest (occurrences_from h b 0) a)"
  using assms
  by (simp add: findNearestIndex_def length_is_zero_def collect_occurrences_nonempty)


lemma locate_exact_repair:
  assumes b: "getp s (str ''before'') = JStr b" "b \<noteq> []"
    and cb: "clamp_bounds env text s = Returns (st, en)"
    and mis: "slice text st en \<noteq> b"
    and occ: "occurs_at text b k"
  shows "\<exists>idx. locate env text s = Returns (Some (of_nat idx, of_nat idx + of_nat (length b), b)) \<and>
    occurs_at text b idx \<and>
    (\<forall>j. occurs_at text b j \<longrightarrow>
       \<bar>of_nat idx - st\<bar> \<le> \<bar>of_nat j - st\<bar> \<and> (\<bar>of_nat j - st\<bar> = \<bar>of_nat idx - st\<bar> \<longrightarrow> idx \<le> j))"
proof -
  let ?occs = "occurrences_from text b 0"
  let ?r = "pick_nearest ?occs st"
  have so: "set ?occs = int ` {k. occurs_at text b k}" by (rule set_occurrences_from[OF b(2)])
  with occ have ne: "?occs \<noteq> []" by auto
  from pick_nearest_spec[OF sorted_occurrences_from ne, of st]
  have mem: "?r \<in> set ?occs"
    and best: "\<forall>x \<in> set ?occs. \<bar>of_int ?r - st\<bar> \<le> \<bar>of_int x - st\<bar> \<and> (\<bar>of_int x - st\<bar> = \<bar>of_int ?r - st\<bar> \<longrightarrow> ?r \<le> x)"
    by simp_all
  from mem so obtain idx where idx: "?r = int idx" "occurs_at text b idx" by auto
  have fi: "findNearestIndex env text (JStr b) st = Returns (int idx)"
    using findNearestIndex_string[OF b(2), of env "text" st] idx(1) by simp
  have bl: "before_length env (JStr b) = Returns (int (length b))"
    using b(2) by (simp add: before_length_def or_empty_def)
  have loc: "locate env text s = Returns (Some (of_nat idx, of_nat idx + of_nat (length b), b))"
    using b(1) cb mis fi bl occurs_slice[OF idx(2)]
    by (simp add: locate_def Let_def)
  have "\<bar>of_nat idx - st\<bar> \<le> \<bar>of_nat j - st\<bar> \<and> (\<bar>of_nat j - st\<bar> = \<bar>of_nat idx - st\<bar> \<longrightarrow> idx \<le> j)"
    if "occurs_at text b j" for j
  proof -
    from that so have "int j \<in> set ?occs" by simp
    with best have "\<bar>of_int ?r - st\<bar> \<le> \<bar>of_int (int j) - st\<bar> \<and>
        (\<bar>of_int (int j) - st\<bar> = \<bar>of_int ?r - st\<bar> \<longrightarrow> ?r \<le> int j)"
      by (rule_tac bspec)
    then show ?thesis unfolding idx(1) by simp
  qed
  with loc idx(2) show ?thesis by (intro exI[of _ idx]) simp
qed

text \<open>
  C3, as amended. For a candidate whose \<open>before\<close> is a non-empty string that differs
  from the clamped slice and that stands somewhere in the text, code unit for code unit,
  the span is relocated and the candidate goes on to the overlap check: its start is the
  occurrence nearest to the clamped start, the lowest one among equally near ones, and
  its end is that start plus the length of \<open>before\<close>. The clamped start \<open>st\<close> is the
  number that the candidate reported, brought into the text, integer or not, and the
  distance is the distance of numbers.
\<close>

theorem exact_repair_nearest:
  "getp s (str ''before'') = JStr b \<and> b \<noteq> [] \<and>
   clamp_bounds env originalText s = Returns (st, en) \<and> slice originalText st en \<noteq> b \<and>
   occurs_at originalText b k \<longrightarrow>
   (\<exists>idx. locate env originalText s = Returns (Some (of_nat idx, of_nat idx + of_nat (length b), b)) \<and>
      occurs_at originalText b idx \<and>
      (\<forall>j. occurs_at originalText b j \<longrightarrow>
         \<bar>of_nat idx - st\<bar> \<le> \<bar>of_nat j - st\<bar> \<and>
         (\<bar>of_nat j - st\<bar> = \<bar>of_nat idx - st\<bar> \<longrightarrow> idx \<le> j)))"
  using locate_exact_repair[of s b env originalText st en k] by simp

theorem exact_repair_nearest_witness:
  "(\<exists>idx. locate host0 (str ''a.a'') (candidate (str ''a'') (6 / 5) 2) =
        Returns (Some (of_nat idx, of_nat idx + of_nat (length (str ''a'')), str ''a'')) \<and>
      occurs_at (str ''a.a'') (str ''a'') idx \<and>
      (\<forall>j. occurs_at (str ''a.a'') (str ''a'') j \<longrightarrow>
         \<bar>of_nat idx - 6 / 5 :: rat\<bar> \<le> \<bar>of_nat j - 6 / 5\<bar> \<and>
         (\<bar>of_nat j - 6 / 5 :: rat\<bar> = \<bar>of_nat idx - 6 / 5\<bar> \<longrightarrow> idx \<le> j))) \<and>
   occurs_at (str ''a.a'') (str ''a'') 0 \<and> occurs_at (str ''a.a'') (str ''a'') 2 \<and>
   locate host0 (str ''a.a'') (candidate (str ''a'') (6 / 5) 2) =
     Returns (Some (2, 3, str ''a'')) \<and>
   locate host0 (str ''a.a'') (candidate (str ''a'') 1 2) =
     Returns (Some (0, 1, str ''a'')) \<and>
   locate host0 (str ''Ini adalah demnstrasi'') (candidate (str ''demnstrasi'') 99 109) =
     Returns (Some (11, 21, str ''demnstrasi''))"
proof -
  have h: "getp (candidate (str ''a'') (6 / 5) 2) (str ''before'') = JStr (str ''a'') \<and>
      str ''a'' \<noteq> [] \<and>
      clamp_bounds host0 (str ''a.a'') (candidate (str ''a'') (6 / 5) 2) = Returns (6 / 5, 2) \<and>
      slice (str ''a.a'') (6 / 5) 2 \<noteq> str ''a'' \<and> occurs_at (str ''a.a'') (str ''a'') 2"
    by (simp add: getp_def candidate_def clamp_bounds_def clamp_def slice_def trunc_simps
        occurs_at_def str_def)
  note t = exact_repair_nearest[where s = "candidate (str ''a'') (6 / 5) 2" and b = "str ''a''"
      and originalText = "str ''a.a''" and st = "6 / 5" and en = 2 and k = 2 and env = host0,
      THEN mp, OF h]
  have o: "occurs_at (str ''a.a'') (str ''a'') 0" "occurs_at (str ''a.a'') (str ''a'') 2"
    by (simp_all add: occurs_at_def str_def)
  have l0: "locate host0 (str ''a.a'') (candidate (str ''a'') (6 / 5) 2) =
     Returns (Some (2, 3, str ''a''))"
    by (simp add: eval_defs)
  have l1: "locate host0 (str ''a.a'') (candidate (str ''a'') 1 2) =
     Returns (Some (0, 1, str ''a''))"
    by (simp add: eval_defs)
  have l2: "locate host0 (str ''Ini adalah demnstrasi'')
      (candidate (str ''demnstrasi'') 99 109) = Returns (Some (11, 21, str ''demnstrasi''))"
    by (simp add: eval_defs)
  from t o l0 l1 l2 show ?thesis by (intro conjI)
qed

theorem empty_before_counterexample:
  "getp (candidate [] 0 2) (str ''before'') = JStr [] \<and>
   clamp_bounds host0 (str ''abc'') (candidate [] 0 2) = Returns (0, 2) \<and>
   slice (str ''abc'') 0 2 \<noteq> [] \<and>
   occurs_at (str ''abc'') [] 0 \<and>
   locate host0 (str ''abc'') (candidate [] 0 2) = Returns None \<and>
   reconcile host0 clock0 (str ''abc'') [JObj (candidate [] 0 2)] = Returns []"
  by (simp add: eval_defs occurs_at_def)

section \<open>When the search never ends, and where a located span lies\<close>

lemma collect_occurrences_Some_nonempty:
  "collect_occurrences h n from acc = Some r \<Longrightarrow> n \<noteq> []"
proof (rule collect_occurrences.raw_induct
    [where P = "\<lambda>h n from acc r. n \<noteq> []" and h = h and n = n and ?from = "from"
       and occurrences = acc and y = r])
  fix co :: "jsstring \<Rightarrow> jsstring \<Rightarrow> int \<Rightarrow> int list \<Rightarrow> int list option"
  fix h n "from" acc r
  assume ih: "\<And>h n from acc r. co h n from acc = Some r \<Longrightarrow> n \<noteq> []"
  assume step: "(let idx = indexOf h n from
      in if idx = - 1 then Some acc else co h n (idx + 1) (acc @ [idx])) = Some r"
  show "n \<noteq> []"
  proof
    assume e: "n = []"
    then have "indexOf h n from \<noteq> - 1"
      by (auto simp: indexOf_def matches_at_def find_None_iff split: option.splits)
    with step have "co h n (indexOf h n from + 1) (acc @ [indexOf h n from]) = Some r"
      by (simp add: Let_def)
    from ih[OF this] e show False by simp
  qed
qed

lemma collect_occurrences_empty_needle: "collect_occurrences h [] from acc = None"
  using collect_occurrences_Some_nonempty[of h "[]" "from" acc]
  by (cases "collect_occurrences h [] from acc") auto

lemma empty_string_in_array_hangs:
  "findNearestIndex env h (JArr [JStr []]) a = Diverges"
  by (simp add: findNearestIndex_def length_is_zero_def collect_occurrences_empty_needle)

lemma pick_nearest_mem: "occs \<noteq> [] \<Longrightarrow> pick_nearest occs a \<in> set occs"
proof -
  assume "occs \<noteq> []"
  then obtain first rest where o: "occs = first # rest" by (cases occs) auto
  from nearest_loop_first_minimum[of "nearest_loop a rest first \<bar>of_int first - a\<bar>" a rest first]
  obtain pre post where "first # rest = pre @ nearest_loop a rest first \<bar>of_int first - a\<bar> # post"
    by blast
  then have "nearest_loop a rest first \<bar>of_int first - a\<bar> \<in> set (first # rest)"
    by (metis in_set_conv_decomp)
  then show ?thesis by (simp add: pick_nearest_def o)
qed

lemma collected_pick_nonneg:
  assumes "collect_occurrences h n 0 [] = Some occs"
  shows "pick_nearest occs a = - 1 \<or> 0 \<le> pick_nearest occs a"
proof (cases "occs = []")
  case True
  then show ?thesis by (simp add: pick_nearest_def)
next
  case False
  from collect_occurrences_Some_nonempty[OF assms] have "n \<noteq> []" .
  from collect_occurrences_nonempty[OF this, of 0 h "[]"] assms
  have "occs = occurrences_from h n 0" by simp
  then have "\<forall>x \<in> set occs. 0 \<le> x" by (auto simp: occurrences_from_def)
  with pick_nearest_mem[OF False, of a] show ?thesis by simp
qed

lemma findNearestIndex_range:
  "findNearestIndex env h needle a = Returns r \<Longrightarrow> r = - 1 \<or> 0 \<le> r"
  using collected_pick_nonneg
  by (auto simp: findNearestIndex_def split: if_splits option.splits)

lemma findNearestIndexCI_range:
  "findNearestIndexCI env h needle a = Returns r \<Longrightarrow> r = - 1 \<or> 0 \<le> r"
  using collected_pick_nonneg
  by (auto simp: findNearestIndexCI_def Let_def split: jsval.splits if_splits option.splits)

lemma before_length_nonneg: "before_length env v = Returns n \<Longrightarrow> 0 \<le> n"
  by (auto simp: before_length_def split: option.splits)

lemma clamp_bounds_ordered:
  "clamp_bounds env text s = Returns (a, b) \<Longrightarrow> 0 \<le> a \<and> a \<le> b \<and> b \<le> of_nat (length text)"
  by (auto simp: clamp_bounds_def clamp_def Let_def split: option.splits jsnum.splits)

lemma locate_ordered:
  assumes "locate env text s = Returns (Some (a, b, t))"
  shows "0 \<le> a \<and> a \<le> b"
proof (cases "clamp_bounds env text s")
  case (Returns cb)
  obtain st en where cb: "cb = (st, en)" by (cases cb)
  show ?thesis
  proof (cases "JStr (slice text st en) = getp s (str ''before'')")
    case True
    with assms Returns cb clamp_bounds_ordered[of env "text" s st en] show ?thesis
      by (simp add: locate_def Let_def)
  next
    case False
    show ?thesis
    proof (cases "findNearestIndex env text (getp s (str ''before'')) st")
      case (Returns i1)
      note r1 = this
      show ?thesis
      proof (cases "i1 = - 1")
        case False
        with findNearestIndex_range[OF r1] have "0 \<le> i1" by simp
        with assms \<open>clamp_bounds env text s = Returns cb\<close> cb \<open>JStr (slice text st en) \<noteq> _\<close> r1 False
          before_length_nonneg[of env "getp s (str ''before'')"]
        show ?thesis
          by (auto simp: locate_def Let_def split: outcome.splits)
      next
        case True
        show ?thesis
        proof (cases "findNearestIndexCI env text (getp s (str ''before'')) st")
          case (Returns i2)
          with findNearestIndexCI_range[OF Returns] assms \<open>clamp_bounds env text s = Returns cb\<close> cb
            \<open>JStr (slice text st en) \<noteq> _\<close> r1 True
            before_length_nonneg[of env "getp s (str ''before'')"]
          show ?thesis
            by (auto simp: locate_def Let_def split: outcome.splits if_splits)
        next
          case (Throws e)
          with assms \<open>clamp_bounds env text s = Returns cb\<close> cb \<open>JStr (slice text st en) \<noteq> _\<close> r1 True
          show ?thesis by (simp add: locate_def Let_def)
        next
          case Diverges
          with assms \<open>clamp_bounds env text s = Returns cb\<close> cb \<open>JStr (slice text st en) \<noteq> _\<close> r1 True
          show ?thesis by (simp add: locate_def Let_def)
        qed
      qed
    next
      case (Throws e)
      with assms \<open>clamp_bounds env text s = Returns cb\<close> cb False show ?thesis
        by (simp add: locate_def Let_def)
    next
      case Diverges
      with assms \<open>clamp_bounds env text s = Returns cb\<close> cb False show ?thesis
        by (simp add: locate_def Let_def)
    qed
  qed
next
  case (Throws e)
  with assms show ?thesis by (simp add: locate_def Let_def)
next
  case Diverges
  with assms show ?thesis by (simp add: locate_def Let_def)
qed

lemma spans_ordered:
  assumes "reconcile env clock text cands = Returns res" "f \<in> set res"
  shows "\<exists>a b. span_of f = Some (a, b) \<and> 0 \<le> a \<and> a \<le> b"
proof -
  let ?P = "\<lambda>f. \<exists>a b. span_of f = Some (a, b) \<and> 0 \<le> a \<and> a \<le> b"
  have "\<exists>taken' :: (rat \<times> rat) list. \<forall>f \<in> set res. ?P f"
  proof (rule reconcile_loop_invariant[where Inv = "\<lambda>taken out. \<forall>f \<in> set out. ?P f"
        and cs = cands and i = 0 and taken = "[]" and out = "[]"])
    from assms(1) show "reconcile_loop env clock text 0 cands [] [] = Returns res"
      by (simp add: reconcile_def)
  next
    show "\<forall>f \<in> set []. ?P f" by simp
  next
    fix taken out i c sp f
    assume old: "\<forall>f \<in> set out. ?P f"
      and st: "candidate_step env clock text taken i c = Returns (Some (sp, f))"
    obtain a b where sp: "sp = (a, b)" by (cases sp)
    from candidate_step_Some[OF st[unfolded sp]] obtain s t where
      l: "locate env text s = Returns (Some (a, b, t))" by auto
    from candidate_step_span(1)[OF st] locate_ordered[OF l] have "?P f" by (simp add: sp)
    with old show "\<forall>f \<in> set (out @ [f]). ?P f" by simp
  qed
  then have "\<forall>f \<in> set res. ?P f" by simp
  then show ?thesis using assms(2) by (rule bspec)
qed

section \<open>Where the lower-cased text is longer than the text\<close>

lemma exact_search_finds_nothing:
  "findNearestIndex host0 (304 # str '' ABC'') (JStr (str ''abc'')) 0 = Returns (- 1)"
  by (simp add: eval_defs)

text \<open>
  C4. On the claim's own example the case-insensitive repair relocates the span and
  takes \<open>before\<close> from the text. On a text that holds U+0130 before the occurrence, the
  index found in the lower-cased text is used as an index into the text: for the text
  made of U+0130 and \<open>'' ABC''\<close> (5 code units, \<open>ABC\<close> at 2) and \<open>before = abc\<close> the
  suggestion is \<open>BC\<close> at [3, 6), not \<open>ABC\<close> at [2, 5).
\<close>

theorem case_insensitive_repair_misplaced:
  "reconcile host0 clock0 (str ''Sya mkn ayam'') [JObj (candidate (str ''sya'') 0 3)] =
     Returns [suggestion (str ''Sya'') 0 3 (str ''sg-1700000000000-0'')] \<and>
   toLowerCase (304 # str '' ABC'') = [105, 775] @ str '' abc'' \<and>
   slice (304 # str '' ABC'') 2 5 = str ''ABC'' \<and>
   toLowerCase (str ''ABC'') = toLowerCase (str ''abc'') \<and>
   findNearestIndexCI host0 (304 # str '' ABC'') (JStr (str ''abc'')) 0 = Returns 3 \<and>
   reconcile host0 clock0 (304 # str '' ABC'') [JObj (candidate (str ''abc'') 0 3)] =
     Returns [suggestion (str ''BC'') 3 6 (str ''sg-1700000000000-0'')]"
  by (simp add: eval_defs)

text \<open>
  C5. A candidate whose \<open>before\<close> is the empty string and whose clamped bounds coincide
  is accepted with \<open>start = end\<close>: on the text \<open>abc\<close> the candidate with \<open>start = 1\<close>,
  \<open>end = 1\<close> gives a suggestion with the empty span [1, 1). After the case-insensitive
  repair of a text that holds U+0130, \<open>end\<close> lies beyond the text: 6 for a text of 5 code
  units.
\<close>

theorem empty_span_accepted:
  "reconcile host0 clock0 (str ''abc'') [JObj (candidate [] 1 1)] =
     Returns [suggestion [] 1 1 (str ''sg-1700000000000-0'')] \<and>
   span_of (suggestion [] 1 1 (str ''sg-1700000000000-0'')) = Some (1, 1) \<and>
   map_outcome (map span_of)
     (reconcile host0 clock0 (304 # str '' ABC'') [JObj (candidate (str ''abc'') 0 3)]) =
     Returns [Some (3, 6)] \<and>
   length (304 # str '' ABC'') = 5"
  by (simp add: eval_defs span_of_def map_outcome_def)

section \<open>What the sanitiser leaves\<close>

lemma slice_prefix: "slice s 0 (of_nat n) = take n s"
  by (simp add: slice_def Let_def trunc_simps min_def)

lemma set_collapse_spaces: "set (collapse_spaces xs) \<subseteq> insert 32 (set xs)"
proof (induction xs rule: collapse_spaces.induct)
  case 1
  then show ?case by simp
next
  case (2 c cs)
  show ?case
  proof (cases "is_space c")
    case True
    have "set (dropWhile is_space cs) \<subseteq> set cs" by (auto dest: set_dropWhileD)
    with 2(1)[OF True] True show ?thesis by auto
  next
    case False
    with 2(2)[OF False] show ?thesis by auto
  qed
qed

lemma set_trim: "set (trim s) \<subseteq> set s"
  unfolding trim_def by (auto dest!: set_dropWhileD)

lemma sanitizeString_length: "0 < n \<Longrightarrow> length (sanitizeString s n) \<le> n"
  by (simp add: sanitizeString_def Let_def slice_prefix)

lemma sanitizeString_no_control:
  assumes "c \<in> set (sanitizeString s n)"
  shows "\<not> is_control c"
proof -
  let ?m = "map (\<lambda>c. if is_control c then 32 else c) s"
  have "set (sanitizeString s n) \<subseteq> set (trim (collapse_spaces ?m))"
    by (auto simp: sanitizeString_def Let_def slice_prefix dest: in_set_takeD)
  also have "\<dots> \<subseteq> insert 32 (set ?m)"
    using set_trim set_collapse_spaces by blast
  finally have "c \<in> insert 32 (set ?m)" using assms by blast
  then show ?thesis by (auto simp: is_control_def)
qed

section \<open>What the spread copies\<close>

lemma build_fixed_fields:
  assumes "build_fixed env clock i s a b t = Returns f"
  shows "\<exists>m af. ToString env (getp s (str ''message'')) = Some m \<and>
    getp f (str ''message'') = JStr (sanitizeString m 200) \<and>
    after_string env (getp s (str ''after'')) = Some af \<and>
    getp f (str ''after'') = JStr (sanitizeString af 100)"
  using assms
  by (auto simp: build_fixed_def Let_def getp_update split: option.splits if_splits)

lemma reconcile_loop_origin:
  assumes "reconcile_loop env clock text i cs taken out = Returns res" "f \<in> set res"
  shows "f \<in> set out \<or>
    (\<exists>j taken' sp. j < length cs \<and>
       candidate_step env clock text taken' (i + j) (cs ! j) = Returns (Some (sp, f)))"
  using assms
proof (induction cs arbitrary: i taken out)
  case Nil
  then show ?case by simp
next
  case (Cons c cs)
  let ?later = "\<exists>j taken' sp. j < length cs \<and>
       candidate_step env clock text taken' (Suc i + j) (cs ! j) = Returns (Some (sp, f))"
  let ?goal = "f \<in> set out \<or>
    (\<exists>j taken' sp. j < length (c # cs) \<and>
       candidate_step env clock text taken' (i + j) ((c # cs) ! j) = Returns (Some (sp, f)))"
  have later: ?goal if ?later
  proof -
    from that obtain j taken' sp where "j < length cs"
      "candidate_step env clock text taken' (Suc i + j) (cs ! j) = Returns (Some (sp, f))"
      by blast
    then have "Suc j < length (c # cs) \<and>
        candidate_step env clock text taken' (i + Suc j) ((c # cs) ! Suc j) =
          Returns (Some (sp, f))" by simp
    then show ?thesis by blast
  qed
  show ?case
  proof (cases "candidate_step env clock text taken i c")
    case (Returns r)
    show ?thesis
    proof (cases r)
      case None
      with Returns Cons.prems(1)
      have "reconcile_loop env clock text (Suc i) cs taken out = Returns res" by simp
      from Cons.IH[OF this Cons.prems(2)] later show ?thesis by blast
    next
      case (Some p)
      obtain sp0 f0 where p: "p = (sp0, f0)" by (cases p)
      have here: ?goal if "f = f0"
      proof -
        from Returns Some p that
        have "0 < length (c # cs) \<and>
          candidate_step env clock text taken (i + 0) ((c # cs) ! 0) = Returns (Some (sp0, f))"
          by simp
        then show ?thesis by blast
      qed
      show ?thesis
      proof (cases "20 \<le> length (out @ [f0])")
        case True
        with Returns Some p Cons.prems(1) have "res = out @ [f0]" by simp
        with Cons.prems(2) have "f \<in> set out \<or> f = f0" by auto
        with here show ?thesis by blast
      next
        case False
        with Returns Some p Cons.prems(1)
        have "reconcile_loop env clock text (Suc i) cs (taken @ [sp0]) (out @ [f0]) = Returns res"
          by simp
        from Cons.IH[OF this Cons.prems(2)] have "f \<in> set out \<or> f = f0 \<or> ?later" by auto
        with here later show ?thesis by blast
      qed
    qed
  next
    case (Throws e)
    with Cons.prems(1) show ?thesis by simp
  next
    case Diverges
    with Cons.prems(1) show ?thesis by simp
  qed
qed

lemma getp_update_other: "k' \<noteq> k \<Longrightarrow> getp (AList.update k v al) k' = getp al k'"
  by (simp add: getp_update)

lemma locate_ignores_key:
  assumes "k \<noteq> str ''before''" "k \<noteq> str ''start''" "k \<noteq> str ''end''"
  shows "locate env text (AList.update k v s) = locate env text s"
  using assms by (simp add: locate_def clamp_bounds_def getp_update_other)

lemma step_span_ignores_confidence:
  "map_outcome (map_option fst)
     (candidate_step env clock text taken i (JObj (AList.update (str ''confidence'') v s))) =
   map_outcome (map_option fst) (candidate_step env clock text taken i (JObj s))"
proof -
  let ?s' = "AList.update (str ''confidence'') v s"
  have g: "getp ?s' k = getp s k" if "k \<noteq> str ''confidence''" for k
    using that by (simp add: getp_update_other)
  have shape: "basicSuggestionShapeValid (JObj ?s') = basicSuggestionShapeValid (JObj s)"
    by (simp add: basicSuggestionShapeValid_def map_of_update_other)
  have cat: "category_ok ?s' = category_ok s" by (simp add: category_ok_def g)
  have sev: "severity_ok ?s' = severity_ok s" by (simp add: severity_ok_def g)
  have loc: "locate env text ?s' = locate env text s" by (simp add: locate_ignores_key)
  have bf: "map_outcome (\<lambda>_. ()) (build_fixed env clock i ?s' a b t) =
      map_outcome (\<lambda>_. ()) (build_fixed env clock i s a b t)" for a b t
    by (simp add: build_fixed_def g map_outcome_def Let_def split: option.splits)
  show ?thesis
  proof (cases "locate env text s")
    case (Returns r)
    show ?thesis
    proof (cases r)
      case None
      with Returns shape cat sev loc show ?thesis by (simp add: candidate_step_def)
    next
      case (Some p)
      obtain a b t where p: "p = (a, b, t)" by (cases p)
      from bf[of a b t] Returns Some p shape cat sev loc show ?thesis
        by (cases "build_fixed env clock i ?s' a b t"; cases "build_fixed env clock i s a b t")
          (simp_all add: candidate_step_def map_outcome_def)
    qed
  qed (use shape cat sev loc in \<open>simp_all add: candidate_step_def map_outcome_def\<close>)
qed


text \<open>
  C10. Every suggestion of the output is built from one candidate object of the array,
  the one at some position \<open>j\<close>, in the iteration \<open>j\<close> of the loop. Every key of the
  suggestion other than \<open>start\<close>, \<open>end\<close>, \<open>before\<close>, \<open>after\<close>, \<open>message\<close> and \<open>id\<close>
  holds what that candidate held under that key, also absent where the candidate had
  none: \<open>examples\<close>, \<open>rules\<close>, \<open>confidence\<close> and any other key are copied as they are.
  The five other fields are made anew: \<open>start\<close> and \<open>end\<close> are the located span,
  \<open>before\<close> is the text found there, \<open>message\<close> is the sanitised \<open>String(message)\<close>
  of the candidate, at most 200 code units long, and \<open>after\<close> the sanitised \<open>after\<close>, at
  most 100, neither holding a control character; \<open>id\<close> is the candidate's when that is
  truthy, and made from the clock and \<open>j\<close> otherwise. Whether a candidate is accepted,
  and at which span, does not depend on the value of its \<open>confidence\<close>: nothing checks
  its range.
\<close>

theorem extra_fields_copied:
  "(reconcile env clock originalText cands = Returns res \<and> f \<in> set res \<longrightarrow>
      (\<exists>j s a b t m af taken.
         j < length cands \<and> cands ! j = JObj s \<and>
         candidate_step env clock originalText taken j (JObj s) = Returns (Some ((a, b), f)) \<and>
         (\<forall>k. k \<notin> set normalized_keys \<longrightarrow> map_of f k = map_of s k) \<and>
         getp f (str ''confidence'') = getp s (str ''confidence'') \<and>
         locate env originalText s = Returns (Some (a, b, t)) \<and>
         getp f (str ''start'') = JNum (Finite a) \<and> getp f (str ''end'') = JNum (Finite b) \<and>
         getp f (str ''before'') = JStr t \<and>
         ToString env (getp s (str ''message'')) = Some m \<and>
         getp f (str ''message'') = JStr (sanitizeString m 200) \<and>
         after_string env (getp s (str ''after'')) = Some af \<and>
         getp f (str ''after'') = JStr (sanitizeString af 100) \<and>
         length (sanitizeString m 200) \<le> 200 \<and> length (sanitizeString af 100) \<le> 100 \<and>
         (\<forall>c \<in> set (sanitizeString m 200) \<union> set (sanitizeString af 100). \<not> is_control c) \<and>
         getp f (str ''id'') =
           (if truthy (getp s (str ''id'')) then getp s (str ''id'')
            else JStr (synth_id (clock j) j)))) \<and>
   map_outcome (map_option fst)
     (candidate_step env clock originalText taken' i
        (JObj (AList.update (str ''confidence'') v c))) =
   map_outcome (map_option fst) (candidate_step env clock originalText taken' i (JObj c))"
proof (intro conjI impI)
  assume h: "reconcile env clock originalText cands = Returns res \<and> f \<in> set res"
  then have "reconcile_loop env clock originalText 0 cands [] [] = Returns res" "f \<in> set res"
    by (simp_all add: reconcile_def)
  from reconcile_loop_origin[OF this] obtain j taken sp where
    j: "j < length cands" and
    st: "candidate_step env clock originalText taken j (cands ! j) = Returns (Some (sp, f))"
    by auto
  obtain a b where sp: "sp = (a, b)" by (cases sp)
  from candidate_step_Some[OF st[unfolded sp]] obtain s t where
    c: "cands ! j = JObj s" and
    l: "locate env originalText s = Returns (Some (a, b, t))" and
    bf: "build_fixed env clock j s a b t = Returns f" by auto
  from build_fixed_fields[OF bf] obtain m af where
    m: "ToString env (getp s (str ''message'')) = Some m"
      "getp f (str ''message'') = JStr (sanitizeString m 200)" and
    af: "after_string env (getp s (str ''after'')) = Some af"
      "getp f (str ''after'') = JStr (sanitizeString af 100)" by blast
  have frame: "\<forall>k. k \<notin> set normalized_keys \<longrightarrow> map_of f k = map_of s k"
    using build_fixed_frame[OF bf] by simp
  have "str ''confidence'' \<notin> set normalized_keys" by (simp add: normalized_keys_def)
  with frame have conf: "getp f (str ''confidence'') = getp s (str ''confidence'')"
    by (simp add: getp_def)
  have len: "length (sanitizeString m 200) \<le> 200" "length (sanitizeString af 100) \<le> 100"
    by (simp_all add: sanitizeString_length)
  have ctl: "\<forall>c \<in> set (sanitizeString m 200) \<union> set (sanitizeString af 100). \<not> is_control c"
    using sanitizeString_no_control by blast
  from j c st[unfolded sp c] frame conf l build_fixed_span[OF bf] m af len ctl build_fixed_id[OF bf]
  show "\<exists>j s a b t m af taken.
         j < length cands \<and> cands ! j = JObj s \<and>
         candidate_step env clock originalText taken j (JObj s) = Returns (Some ((a, b), f)) \<and>
         (\<forall>k. k \<notin> set normalized_keys \<longrightarrow> map_of f k = map_of s k) \<and>
         getp f (str ''confidence'') = getp s (str ''confidence'') \<and>
         locate env originalText s = Returns (Some (a, b, t)) \<and>
         getp f (str ''start'') = JNum (Finite a) \<and> getp f (str ''end'') = JNum (Finite b) \<and>
         getp f (str ''before'') = JStr t \<and>
         ToString env (getp s (str ''message'')) = Some m \<and>
         getp f (str ''message'') = JStr (sanitizeString m 200) \<and>
         after_string env (getp s (str ''after'')) = Some af \<and>
         getp f (str ''after'') = JStr (sanitizeString af 100) \<and>
         length (sanitizeString m 200) \<le> 200 \<and> length (sanitizeString af 100) \<le> 100 \<and>
         (\<forall>c \<in> set (sanitizeString m 200) \<union> set (sanitizeString af 100). \<not> is_control c) \<and>
         getp f (str ''id'') =
           (if truthy (getp s (str ''id'')) then getp s (str ''id'')
            else JStr (synth_id (clock j) j))"
    by (intro exI[of _ j] exI[of _ s] exI[of _ a] exI[of _ b] exI[of _ t] exI[of _ m]
        exI[of _ af] exI[of _ taken] conjI)
next
  show "map_outcome (map_option fst)
     (candidate_step env clock originalText taken' i
        (JObj (AList.update (str ''confidence'') v c))) =
   map_outcome (map_option fst) (candidate_step env clock originalText taken' i (JObj c))"
    by (rule step_span_ignores_confidence)
qed

theorem extra_fields_copied_witness:
  "reconcile host0 clock0 (str ''Sya mkn ayam'') [JObj noisy] = Returns [noisy_out] \<and>
   (\<exists>j s a b t m af taken.
         j < length [JObj noisy] \<and> [JObj noisy] ! j = JObj s \<and>
         candidate_step host0 clock0 (str ''Sya mkn ayam'') taken j (JObj s) =
           Returns (Some ((a, b), noisy_out)) \<and>
         (\<forall>k. k \<notin> set normalized_keys \<longrightarrow> map_of noisy_out k = map_of s k) \<and>
         getp noisy_out (str ''confidence'') = getp s (str ''confidence'') \<and>
         locate host0 (str ''Sya mkn ayam'') s = Returns (Some (a, b, t)) \<and>
         getp noisy_out (str ''start'') = JNum (Finite a) \<and>
         getp noisy_out (str ''end'') = JNum (Finite b) \<and>
         getp noisy_out (str ''before'') = JStr t \<and>
         ToString host0 (getp s (str ''message'')) = Some m \<and>
         getp noisy_out (str ''message'') = JStr (sanitizeString m 200) \<and>
         after_string host0 (getp s (str ''after'')) = Some af \<and>
         getp noisy_out (str ''after'') = JStr (sanitizeString af 100) \<and>
         length (sanitizeString m 200) \<le> 200 \<and> length (sanitizeString af 100) \<le> 100 \<and>
         (\<forall>c \<in> set (sanitizeString m 200) \<union> set (sanitizeString af 100). \<not> is_control c) \<and>
         getp noisy_out (str ''id'') =
           (if truthy (getp s (str ''id'')) then getp s (str ''id'')
            else JStr (synth_id (clock0 j) j))) \<and>
   getp noisy (str ''message'') = JStr ([32, 32] @ str ''salah'' @ [9, 7] @ str ''ketik'' @ [32]) \<and>
   getp noisy_out (str ''message'') = JStr (str ''salah ketik'') \<and>
   getp noisy (str ''after'') = JStr (str ''Saya'' @ [0]) \<and>
   getp noisy_out (str ''after'') = JStr (str ''Saya'') \<and>
   getp noisy_out (str ''examples'') = JArr [JStr ([32, 7] @ str ''Saya  makan'')] \<and>
   getp noisy_out (str ''confidence'') = JNum (Finite (9 / 10)) \<and>
   map_outcome (map_option fst)
     (candidate_step host0 clock0 (str ''Sya mkn ayam'') [] 0
        (JObj (AList.update (str ''confidence'') (JNum (Finite (- 17))) noisy))) =
   Returns (Some (0, 3))"
proof -
  let ?T = "str ''Sya mkn ayam''"
  have r: "reconcile host0 clock0 ?T [JObj noisy] = Returns [noisy_out]"
    by (simp add: eval_defs noisy_def noisy_out_def)
  note t = extra_fields_copied[where env = host0 and clock = clock0 and originalText = ?T
      and cands = "[JObj noisy]" and res = "[noisy_out]" and f = noisy_out and taken' = "[]"
      and i = 0 and v = "JNum (Finite (- 17))" and c = noisy]
  have 1: "\<exists>j s a b t m af taken.
         j < length [JObj noisy] \<and> [JObj noisy] ! j = JObj s \<and>
         candidate_step host0 clock0 ?T taken j (JObj s) =
           Returns (Some ((a, b), noisy_out)) \<and>
         (\<forall>k. k \<notin> set normalized_keys \<longrightarrow> map_of noisy_out k = map_of s k) \<and>
         getp noisy_out (str ''confidence'') = getp s (str ''confidence'') \<and>
         locate host0 ?T s = Returns (Some (a, b, t)) \<and>
         getp noisy_out (str ''start'') = JNum (Finite a) \<and>
         getp noisy_out (str ''end'') = JNum (Finite b) \<and>
         getp noisy_out (str ''before'') = JStr t \<and>
         ToString host0 (getp s (str ''message'')) = Some m \<and>
         getp noisy_out (str ''message'') = JStr (sanitizeString m 200) \<and>
         after_string host0 (getp s (str ''after'')) = Some af \<and>
         getp noisy_out (str ''after'') = JStr (sanitizeString af 100) \<and>
         length (sanitizeString m 200) \<le> 200 \<and> length (sanitizeString af 100) \<le> 100 \<and>
         (\<forall>c \<in> set (sanitizeString m 200) \<union> set (sanitizeString af 100). \<not> is_control c) \<and>
         getp noisy_out (str ''id'') =
           (if truthy (getp s (str ''id'')) then getp s (str ''id'')
            else JStr (synth_id (clock0 j) j))"
    by (rule mp[OF t[THEN conjunct1]]) (simp add: r)
  have "map_outcome (map_option fst) (candidate_step host0 clock0 ?T [] 0 (JObj noisy)) =
    Returns (Some (0, 3))"
    by (simp add: eval_defs noisy_def map_outcome_def)
  with t[THEN conjunct2]
  have 2: "map_outcome (map_option fst)
     (candidate_step host0 clock0 ?T [] 0
        (JObj (AList.update (str ''confidence'') (JNum (Finite (- 17))) noisy))) =
    Returns (Some (0, 3))"
    by simp
  have 3: "getp noisy (str ''message'') =
      JStr ([32, 32] @ str ''salah'' @ [9, 7] @ str ''ketik'' @ [32])"
    "getp noisy_out (str ''message'') = JStr (str ''salah ketik'')"
    "getp noisy (str ''after'') = JStr (str ''Saya'' @ [0])"
    "getp noisy_out (str ''after'') = JStr (str ''Saya'')"
    "getp noisy_out (str ''examples'') = JArr [JStr ([32, 7] @ str ''Saya  makan'')]"
    "getp noisy_out (str ''confidence'') = JNum (Finite (9 / 10))"
    by (simp_all add: noisy_def noisy_out_def getp_def str_def)
  from r 1 3 2 show ?thesis by (intro conjI)
qed

section \<open>The retry of the gateway\<close>






section \<open>A number as before\<close>

text \<open>
  A \<open>before\<close> that is a number is searched for as the host prints it, and the
  suggestion carries the text found: with \<open>10^21\<close>, which the host prints as \<open>1e+21\<close>,
  the text \<open>xx1e+21\<close> gives the span [2, 7).
\<close>

lemma numeric_before:
  assumes "numberToString env (Finite (10 ^ 21)) = str ''1e+21''"
  shows "locate env (str ''xx1e+21'')
      [(str ''before'', JNum (Finite (10 ^ 21))), (str ''start'', JNum (Finite 0)),
       (str ''end'', JNum (Finite 1))] =
    Returns (Some (2, 7, str ''1e+21''))"
  using assms
  by (simp add: locate_def clamp_bounds_def clamp_def getp_def slice_def trunc_simps
      findNearestIndex_def length_is_zero_def collect_occurrences_nonempty occurrences_from_def
      matches_at_def upt_rec pick_nearest_def before_length_def or_empty_def str_def Let_def)

end
